theory Spec2Isabelle
  imports Complex_Main "HOL-Library.Sublist" "HOL-Library.Multiset"
begin

section \<open>Strings\<close>

text \<open>
  Labels, property values and scheme names are JavaScript strings. They are modelled as
  \<^typ>\<open>string\<close>; an absent field (\<^verbatim>\<open>undefined\<close> or \<^verbatim>\<open>null\<close>) is \<^term>\<open>None\<close>.
  The model covers ASCII text: \<^verbatim>\<open>toUpperCase\<close> maps the letters a..z to A..Z and
  leaves every other character as it is.
\<close>

definition upperChar :: "char \<Rightarrow> char" where
  "upperChar c =
     (case map_of (zip ''abcdefghijklmnopqrstuvwxyz'' ''ABCDEFGHIJKLMNOPQRSTUVWXYZ'') c of
        Some C \<Rightarrow> C
      | None \<Rightarrow> c)"

definition toUpperCase :: "string \<Rightarrow> string" where
  "toUpperCase s = map upperChar s"

text \<open>\<^verbatim>\<open>String.prototype.includes\<close>: the pattern occurs at some position.\<close>

fun str_includes :: "string \<Rightarrow> string \<Rightarrow> bool" where
  "str_includes [] p = (p = [])"
| "str_includes (c # cs) p = (prefix p (c # cs) \<or> str_includes cs p)"

text \<open>
  The operand of \<^verbatim>\<open>||\<close> and \<^verbatim>\<open>&&\<close>: an absent value and the empty string are falsy,
  every other string is truthy.
\<close>

fun truthy :: "string option \<Rightarrow> bool" where
  "truthy None = False"
| "truthy (Some s) = (s \<noteq> [])"

definition js_or :: "string option \<Rightarrow> string option \<Rightarrow> string option" where
  "js_or a b = (if truthy a then a else b)"

section \<open>Quality score\<close>

text \<open>
  \<^verbatim>\<open>getQualityScore\<close>: the label defaults to the empty string, is upper-cased and
  tested against the four tags in the order QL0, QL1, QL2, QL3.
\<close>

definition getQualityScore :: "string option \<Rightarrow> nat" where
  "getQualityScore qualityLevel =
     (let normalized = toUpperCase (case js_or qualityLevel (Some []) of Some s \<Rightarrow> s | None \<Rightarrow> [])
      in if str_includes normalized ''QL0'' then 0
         else if str_includes normalized ''QL1'' then 1
         else if str_includes normalized ''QL2'' then 2
         else if str_includes normalized ''QL3'' then 3
         else 9)"

text \<open>
  The wording of the specification: a label contains a tag ``in any letter case, with any
  surrounding text'' when some stretch of it reads as the tag once upper-cased.
\<close>

definition contains_ci :: "string \<Rightarrow> string \<Rightarrow> bool" where
  "contains_ci s p = (\<exists>u w v. s = u @ w @ v \<and> toUpperCase w = p)"

definition qlTag :: "nat \<Rightarrow> string" where
  "qlTag k = ''QL'' @ [''0123'' ! k]"

definition labelHas :: "string option \<Rightarrow> nat \<Rightarrow> bool" where
  "labelHas q k = (\<exists>s. q = Some s \<and> contains_ci s (qlTag k))"

text \<open>How many of the four tags a label matches, computed as the code tests them.\<close>

definition matchCount :: "string option \<Rightarrow> nat" where
  "matchCount q =
     length (filter (\<lambda>k. str_includes (toUpperCase (case q of Some s \<Rightarrow> s | None \<Rightarrow> [])) (qlTag k))
               [0, 1, 2, 3])"

section \<open>Dates\<close>

text \<open>
  The argument of \<^verbatim>\<open>new Date(a.publicationDate || a.date || 0)\<close> is a date string or the
  number 0. \<^verbatim>\<open>getTime()\<close> yields a time value in milliseconds, or NaN for an invalid
  date; NaN is \<^term>\<open>None\<close>. How a string is read is the engine's \<^verbatim>\<open>Date.parse\<close>; it
  is a parameter \<open>parse\<close> of everything below.
\<close>

datatype dateArg = DateStr string | DateNum int

definition timeClip :: "int \<Rightarrow> int option" where
  "timeClip t = (if \<bar>t\<bar> \<le> 8640000000000000 then Some t else None)"

definition getTime :: "(string \<Rightarrow> int option) \<Rightarrow> dateArg \<Rightarrow> int option" where
  "getTime parse a = (case a of DateNum n \<Rightarrow> timeClip n | DateStr s \<Rightarrow> parse s)"

text \<open>
  One instance of \<^verbatim>\<open>Date.parse\<close>, used for concrete inputs only: the date-only form
  \<^verbatim>\<open>YYYY-MM-DD\<close> of the ECMAScript date-time string format, read as midnight UTC, with
  an out-of-range month or day giving NaN as ECMAScript requires. What other strings
  give is left to the engine by ECMAScript; this instance answers NaN for them.
\<close>

definition digitVal :: "char \<Rightarrow> nat option" where
  "digitVal c = map_of (zip ''0123456789'' [0, 1, 2, 3, 4, 5, 6, 7, 8, 9]) c"

fun digitsVal :: "nat \<Rightarrow> string \<Rightarrow> nat option" where
  "digitsVal acc [] = Some acc"
| "digitsVal acc (c # cs) =
     (case digitVal c of None \<Rightarrow> None | Some v \<Rightarrow> digitsVal (10 * acc + v) cs)"

definition isLeapYear :: "nat \<Rightarrow> bool" where
  "isLeapYear y = (y mod 4 = 0 \<and> (y mod 100 \<noteq> 0 \<or> y mod 400 = 0))"

definition daysInMonth :: "nat \<Rightarrow> nat \<Rightarrow> nat" where
  "daysInMonth y m =
     (if m = 2 then (if isLeapYear y then 29 else 28)
      else if m = 4 \<or> m = 6 \<or> m = 9 \<or> m = 11 then 30 else 31)"

definition dayFromYear :: "int \<Rightarrow> int" where
  "dayFromYear y =
     365 * (y - 1970) + (y - 1969) div 4 - (y - 1901) div 100 + (y - 1601) div 400"

definition dayWithinYear :: "nat \<Rightarrow> nat \<Rightarrow> nat \<Rightarrow> nat" where
  "dayWithinYear y m d =
     [0, 31, 59, 90, 120, 151, 181, 212, 243, 273, 304, 334] ! (m - 1)
       + (if isLeapYear y \<and> 2 < m then 1 else 0) + (d - 1)"

definition isoDateParse :: "string \<Rightarrow> int option" where
  "isoDateParse s =
     (if length s = 10 \<and> s ! 4 = CHR ''-'' \<and> s ! 7 = CHR ''-'' then
        (case (digitsVal 0 (take 4 s), digitsVal 0 (take 2 (drop 5 s)), digitsVal 0 (drop 8 s)) of
           (Some y, Some m, Some d) \<Rightarrow>
             if 1 \<le> m \<and> m \<le> 12 \<and> 1 \<le> d \<and> d \<le> daysInMonth y m
             then Some ((dayFromYear (int y) + int (dayWithinYear y m d)) * 86400000)
             else None
         | _ \<Rightarrow> None)
      else None)"

section \<open>Ranking of search results\<close>

text \<open>
  A dataset descriptor; the fields of the provider that the ranking does not read are the
  extension part of the record.
\<close>

record descriptor =
  qualityLevel :: "string option"
  publicationDate :: "string option"
  date :: "string option"

definition resolveDate :: "'a descriptor_scheme \<Rightarrow> dateArg" where
  "resolveDate d =
     (case js_or (publicationDate d) (date d) of
        Some s \<Rightarrow> if s \<noteq> [] then DateStr s else DateNum 0
      | None \<Rightarrow> DateNum 0)"

definition timestamp :: "(string \<Rightarrow> int option) \<Rightarrow> 'a descriptor_scheme \<Rightarrow> int option" where
  "timestamp parse d = getTime parse (resolveDate d)"

text \<open>
  The comparator handed to \<^verbatim>\<open>sort\<close>. Its result is a JavaScript number; a difference
  with a NaN operand is NaN (\<^term>\<open>None\<close>). Time values are integers below \<open>2^53\<close>, so
  the sign of their difference is the sign of the exact difference.
\<close>

definition rankCompare ::
  "(string \<Rightarrow> int option) \<Rightarrow> 'a descriptor_scheme \<Rightarrow> 'a descriptor_scheme \<Rightarrow> int option" where
  "rankCompare parse a b =
     (let qualityDiff = int (getQualityScore (qualityLevel a)) - int (getQualityScore (qualityLevel b))
      in if qualityDiff \<noteq> 0 then Some qualityDiff
         else (case (timestamp parse a, timestamp parse b) of
                 (Some dateA, Some dateB) \<Rightarrow> Some (dateB - dateA)
               | _ \<Rightarrow> None))"

text \<open>
  \<^verbatim>\<open>Array.prototype.sort\<close> reads a NaN from the comparator as 0.
\<close>

definition sortCompare :: "('a \<Rightarrow> 'a \<Rightarrow> int option) \<Rightarrow> 'a \<Rightarrow> 'a \<Rightarrow> int" where
  "sortCompare comparefn x y = (case comparefn x y of None \<Rightarrow> 0 | Some v \<Rightarrow> v)"

text \<open>
  The sort itself is the engine's. ECMAScript fixes its result only for a consistent
  comparator: one that, on the values sorted, makes ``compares equal'' reflexive,
  symmetric and transitive and makes ``compares less'' and ``compares greater''
  transitive. Then the result is sorted and stable; in any case it is a permutation of
  the input. With an inconsistent comparator the order is left to the engine. So the
  engine's sort is a parameter \<open>srt\<close> of the ranking, and \<open>sortContract\<close> is what
  ECMAScript promises of it.
\<close>

definition consistentOn :: "('a \<Rightarrow> 'a \<Rightarrow> int) \<Rightarrow> 'a set \<Rightarrow> bool" where
  "consistentOn c S =
     (\<forall>a\<in>S. \<forall>b\<in>S. \<forall>d\<in>S.
        c a a = 0
        \<and> (c a b = 0 \<longrightarrow> c b a = 0)
        \<and> (c a b = 0 \<and> c b d = 0 \<longrightarrow> c a d = 0)
        \<and> (c a b < 0 \<and> c b d < 0 \<longrightarrow> c a d < 0)
        \<and> (0 < c a b \<and> 0 < c b d \<longrightarrow> 0 < c a d))"

definition sortContract :: "(('a \<Rightarrow> 'a \<Rightarrow> int) \<Rightarrow> 'a list \<Rightarrow> 'a list) \<Rightarrow> bool" where
  "sortContract srt =
     (\<forall>c xs. mset (srt c xs) = mset xs
        \<and> (consistentOn c (set xs) \<longrightarrow>
              sorted_wrt (\<lambda>a b. c a b \<le> 0) (srt c xs)
              \<and> (\<forall>k\<in>set xs. filter (\<lambda>x. c k x = 0) (srt c xs) = filter (\<lambda>x. c k x = 0) xs)))"

text \<open>
  Two engines for concrete inputs. The first is the stable insertion sort, which keeps an
  element in front of the first later element it does not compare greater than.
\<close>

fun insert_sorted :: "('a \<Rightarrow> 'a \<Rightarrow> int) \<Rightarrow> 'a \<Rightarrow> 'a list \<Rightarrow> 'a list" where
  "insert_sorted c x [] = [x]"
| "insert_sorted c x (y # ys) = (if c x y \<le> 0 then x # y # ys else y # insert_sorted c x ys)"

fun array_sort :: "('a \<Rightarrow> 'a \<Rightarrow> int) \<Rightarrow> 'a list \<Rightarrow> 'a list" where
  "array_sort c [] = []"
| "array_sort c (x # xs) = insert_sorted c x (array_sort c xs)"

text \<open>
  The second is the sort of the V8 engine as it runs on an array of fewer than 64
  elements: the longest run at the front is found (a strictly descending run is
  reversed), and each later element is put into the sorted front by binary search.
\<close>

fun countRun :: "('a \<Rightarrow> 'a \<Rightarrow> int) \<Rightarrow> bool \<Rightarrow> 'a \<Rightarrow> 'a list \<Rightarrow> nat" where
  "countRun c isDescending previous [] = 0"
| "countRun c isDescending previous (x # xs) =
     (if (if isDescending then 0 \<le> c x previous else c x previous < 0) then 0
      else Suc (countRun c isDescending x xs))"

definition countAndMakeRun :: "('a \<Rightarrow> 'a \<Rightarrow> int) \<Rightarrow> 'a list \<Rightarrow> 'a list \<times> 'a list" where
  "countAndMakeRun c xs =
     (case xs of
        elementHigh # elementLow # rest \<Rightarrow>
          (let isDescending = c elementLow elementHigh < 0;
               runLength = 2 + countRun c isDescending elementLow rest
           in (if isDescending then rev (take runLength xs) else take runLength xs,
               drop runLength xs))
      | _ \<Rightarrow> (xs, []))"

function binarySearch :: "('a \<Rightarrow> 'a \<Rightarrow> int) \<Rightarrow> 'a \<Rightarrow> 'a list \<Rightarrow> nat \<Rightarrow> nat \<Rightarrow> nat" where
  "binarySearch c pivot work left right =
     (if left < right then
        (let mid = left + (right - left) div 2
         in if c pivot (work ! mid) < 0 then binarySearch c pivot work left mid
            else binarySearch c pivot work (mid + 1) right)
      else left)"
  by pat_completeness auto
termination
  by (relation "measure (\<lambda>(c, pivot, work, left, right). right - left)") auto

declare binarySearch.simps [simp del]

definition binaryInsert :: "('a \<Rightarrow> 'a \<Rightarrow> int) \<Rightarrow> 'a \<Rightarrow> 'a list \<Rightarrow> 'a list" where
  "binaryInsert c pivot work =
     (let left = binarySearch c pivot work 0 (length work)
      in take left work @ pivot # drop left work)"

definition v8_sort :: "('a \<Rightarrow> 'a \<Rightarrow> int) \<Rightarrow> 'a list \<Rightarrow> 'a list" where
  "v8_sort c xs = (case countAndMakeRun c xs of (run, rest) \<Rightarrow> fold (binaryInsert c) rest run)"

type_synonym 'a engineSort = "('a \<Rightarrow> 'a \<Rightarrow> int) \<Rightarrow> 'a list \<Rightarrow> 'a list"

definition rankResults ::
  "'a descriptor_scheme engineSort \<Rightarrow> (string \<Rightarrow> int option) \<Rightarrow>
     'a descriptor_scheme list \<Rightarrow> 'a descriptor_scheme list" where
  "rankResults srt parse results = srt (sortCompare (rankCompare parse)) results"

text \<open>
  The search-complete event carries the results under \<^verbatim>\<open>detail.results\<close> or under
  \<^verbatim>\<open>results\<close>; an array, even an empty one, is truthy.
\<close>

record 'd searchEvent =
  detailResults :: "'d list option"
  eventResults :: "'d list option"

definition resultsOf :: "'d searchEvent \<Rightarrow> 'd list" where
  "resultsOf event =
     (case detailResults event of
        Some r \<Rightarrow> r
      | None \<Rightarrow> (case eventResults event of Some r \<Rightarrow> r | None \<Rightarrow> []))"

text \<open>
  \<^verbatim>\<open>handleSearchComplete\<close>: the value is the descriptor handed to \<^verbatim>\<open>loadDataset\<close>,
  or \<^term>\<open>None\<close> when no load is triggered. \<open>canLoad\<close> says whether the control exposes
  \<^verbatim>\<open>loadDataset\<close>; \<open>srt\<close> is the engine's sort.
\<close>

definition handleSearchComplete ::
  "'a descriptor_scheme engineSort \<Rightarrow> (string \<Rightarrow> int option) \<Rightarrow> bool \<Rightarrow>
     'a descriptor_scheme searchEvent \<Rightarrow> 'a descriptor_scheme option" where
  "handleSearchComplete srt parse canLoad event =
     (let results = resultsOf event in
      if length results = 0 then None
      else (case rankResults srt parse results of
              [] \<Rightarrow> None
            | best # _ \<Rightarrow> if canLoad then Some best else None))"

text \<open>
  The order of the specification: \<open>d\<close> outranks \<open>b\<close> when its score is lower, or the
  scores are equal and its timestamp is later.
\<close>

definition outranks ::
  "(string \<Rightarrow> int option) \<Rightarrow> 'a descriptor_scheme \<Rightarrow> 'a descriptor_scheme \<Rightarrow> bool" where
  "outranks parse d b =
     (getQualityScore (qualityLevel d) < getQualityScore (qualityLevel b)
      \<or> (getQualityScore (qualityLevel d) = getQualityScore (qualityLevel b)
          \<and> (case (timestamp parse d, timestamp parse b) of
                (Some td, Some tb) \<Rightarrow> tb < td
              | _ \<Rightarrow> False)))"

definition rankKey ::
  "(string \<Rightarrow> int option) \<Rightarrow> 'a descriptor_scheme \<Rightarrow> nat \<times> int option" where
  "rankKey parse d = (getQualityScore (qualityLevel d), timestamp parse d)"

definition datesValid :: "(string \<Rightarrow> int option) \<Rightarrow> 'a descriptor_scheme list \<Rightarrow> bool" where
  "datesValid parse ds = list_all (\<lambda>d. timestamp parse d \<noteq> None) ds"

section \<open>Layer styling\<close>

text \<open>
  Style expressions are JSON arrays of strings, numbers and arrays. A map instance holds
  its layers by id; a layer has paint properties and at most one filter.
\<close>

datatype expr = Str string | Num real | Arr "expr list"

record layer =
  paint :: "string \<rightharpoonup> expr"
  layerFilter :: "expr option"

type_synonym mapInstance = "string \<rightharpoonup> layer"

definition COLOR_RAMPS_elevation_ramp :: "expr list" where
  "COLOR_RAMPS_elevation_ramp =
     [Arr [Num 0, Str ''#0d47a1''],
      Arr [Num 1, Str ''#1976d2''],
      Arr [Num 2.5, Str ''#26c6da''],
      Arr [Num 3.5, Str ''#fdd835''],
      Arr [Num 5, Str ''#ef5350'']]"

text \<open>\<^verbatim>\<open>Array.prototype.flat()\<close>, one level deep.\<close>

fun flat :: "expr list \<Rightarrow> expr list" where
  "flat [] = []"
| "flat (Arr xs # es) = xs @ flat es"
| "flat (e # es) = e # flat es"

definition getLayer :: "mapInstance \<Rightarrow> string \<Rightarrow> layer option" where
  "getLayer m layerId = m layerId"

definition setPaintProperty :: "mapInstance \<Rightarrow> string \<Rightarrow> string \<Rightarrow> expr \<Rightarrow> mapInstance" where
  "setPaintProperty m layerId name v =
     (case m layerId of
        None \<Rightarrow> m
      | Some l \<Rightarrow> m(layerId \<mapsto> l\<lparr>paint := (paint l)(name \<mapsto> v)\<rparr>))"

definition setFilter :: "mapInstance \<Rightarrow> string \<Rightarrow> expr \<Rightarrow> mapInstance" where
  "setFilter m layerId f =
     (case m layerId of
        None \<Rightarrow> m
      | Some l \<Rightarrow> m(layerId \<mapsto> l\<lparr>layerFilter := Some f\<rparr>))"

text \<open>
  \<^verbatim>\<open>applyColorScheme\<close> and \<^verbatim>\<open>applySeaLevelFilter\<close> walk the current layer ids
  (\<^verbatim>\<open>lidarLayerIdsRef.current\<close>, here \<open>layerIds\<close>) and skip an id the map does not have.
\<close>

definition applyColorScheme :: "mapInstance \<Rightarrow> string list \<Rightarrow> string \<Rightarrow> mapInstance" where
  "applyColorScheme mapInst layerIds scheme =
     fold (\<lambda>layerId m.
        if getLayer m layerId = None then m
        else if scheme = ''elevation'' then
          setPaintProperty m layerId ''point-color''
            (Arr ([Str ''interpolate'', Arr [Str ''linear''], Arr [Str ''get'', Str ''Z'']]
                  @ flat COLOR_RAMPS_elevation_ramp))
        else if scheme = ''intensity'' then
          setPaintProperty m layerId ''point-color''
            (Arr [Str ''interpolate'', Arr [Str ''linear''], Arr [Str ''get'', Str ''Intensity''],
                  Num 0, Str ''#212121'', Num 255, Str ''#f5f5f5''])
        else if scheme = ''classification'' then
          setPaintProperty m layerId ''point-color''
            (Arr [Str ''match'', Arr [Str ''get'', Str ''Classification''],
                  Num 2, Str ''#4caf50'',
                  Num 7, Str ''#1976d2'',
                  Num 9, Str ''#ffb300'',
                  Num 10, Str ''#ef5350'',
                  Str ''#9e9e9e''])
        else if scheme = ''rgb'' then
          setPaintProperty m layerId ''point-color''
            (Arr [Str ''rgb'', Arr [Str ''get'', Str ''Red''], Arr [Str ''get'', Str ''Green''],
                  Arr [Str ''get'', Str ''Blue'']])
        else m) layerIds mapInst"

definition applySeaLevelFilter :: "mapInstance \<Rightarrow> string list \<Rightarrow> real \<Rightarrow> mapInstance" where
  "applySeaLevelFilter mapInst layerIds threshold =
     fold (\<lambda>layerId m.
        if getLayer m layerId \<noteq> None
        then setFilter m layerId (Arr [Str ''>='', Arr [Str ''get'', Str ''Z''], Num threshold])
        else m) layerIds mapInst"

text \<open>
  What the renderer does with the two expression forms the claims speak about, after the
  style specification of the map library: \<^verbatim>\<open>[">=", ["get", k], t]\<close> holds of a point
  whose attribute \<open>k\<close> is at least \<open>t\<close>, and \<^verbatim>\<open>["match", ["get", k], l1, o1, ..., default]\<close>
  yields the output of the first label equal to the attribute, else the default.
  A point is its numeric attributes. Numbers are reals; the thresholds and elevations
  compared below are decimal literals, whose order is the same as binary floating-point
  numbers.
\<close>

definition evalFilter :: "expr \<Rightarrow> (string \<rightharpoonup> real) \<Rightarrow> bool option" where
  "evalFilter e point =
     (case e of
        Arr [Str op, Arr [Str g, Str k], Num t] \<Rightarrow>
          if op = ''>='' \<and> g = ''get'' then map_option (\<lambda>z. t \<le> z) (point k) else None
      | _ \<Rightarrow> None)"

fun matchArms :: "real \<Rightarrow> expr list \<Rightarrow> expr option" where
  "matchArms v [dflt] = Some dflt"
| "matchArms v (Num l # out # rest) = (if v = l then Some out else matchArms v rest)"
| "matchArms v _ = None"

definition evalMatch :: "expr \<Rightarrow> (string \<rightharpoonup> real) \<Rightarrow> expr option" where
  "evalMatch e point =
     (case e of
        Arr (Str op # Arr [Str g, Str k] # arms) \<Rightarrow>
          if op = ''match'' \<and> g = ''get''
          then (case point k of None \<Rightarrow> None | Some v \<Rightarrow> matchArms v arms)
          else None
      | _ \<Rightarrow> None)"

definition recognizedSchemes :: "string set" where
  "recognizedSchemes = {''elevation'', ''intensity'', ''classification'', ''rgb''}"

section \<open>Florida feature filter\<close>

text \<open>
  A GeoJSON feature; \<^verbatim>\<open>properties\<close> may be null, and the rest of the feature is the
  extension part of the record. \<^verbatim>\<open>data.features\<close> may be absent.
\<close>

record feature =
  properties :: "(string \<rightharpoonup> string) option"

definition getProp :: "'a feature_scheme \<Rightarrow> string \<Rightarrow> string option" where
  "getProp f k = (case properties f of None \<Rightarrow> None | Some p \<Rightarrow> p k)"

definition keepFeature :: "'a feature_scheme \<Rightarrow> bool" where
  "keepFeature f =
     (let state = js_or (getProp f ''state'') (getProp f ''STATE'')
      in truthy state \<and>
         (case state of None \<Rightarrow> False | Some s \<Rightarrow> str_includes (toUpperCase s) ''FL''))"

definition floridaFeatures :: "'a feature_scheme list option \<Rightarrow> 'a feature_scheme list option" where
  "floridaFeatures features = map_option (filter keepFeature) features"

definition sourceFeatures :: "'a feature_scheme list option \<Rightarrow> 'a feature_scheme list" where
  "sourceFeatures features = (case floridaFeatures features of None \<Rightarrow> [] | Some fs \<Rightarrow> fs)"

text \<open>
  The wording of the specification: the state property, with \<^verbatim>\<open>STATE\<close> as the fallback of
  the \<^verbatim>\<open>||\<close> operator, exists and contains FL in any letter case.
\<close>

definition specKeeps :: "'a feature_scheme \<Rightarrow> bool" where
  "specKeeps f = (\<exists>v. js_or (getProp f ''state'') (getProp f ''STATE'') = Some v \<and> contains_ci v ''FL'')"

text \<open>
  Descriptors for concrete inputs: a label and a publication date, no fallback date; and
  a provider's descriptor that carries a title besides.
\<close>

abbreviation dsc :: "string \<Rightarrow> string \<Rightarrow> descriptor" where
  "dsc q p \<equiv> \<lparr>qualityLevel = Some q, publicationDate = Some p, date = None\<rparr>"

record titledDescriptor = descriptor +
  title :: string

abbreviation titled :: "string \<Rightarrow> string \<Rightarrow> string \<Rightarrow> titledDescriptor" where
  "titled q p t \<equiv> \<lparr>qualityLevel = Some q, publicationDate = Some p, date = None, title = t\<rparr>"

abbreviation searchResults :: "'d list \<Rightarrow> 'd searchEvent" where
  "searchResults rs \<equiv> \<lparr>detailResults = Some rs, eventResults = None\<rparr>"

text \<open>Features and a map instance for concrete inputs.\<close>

abbreviation stateFeature :: "string \<Rightarrow> feature" where
  "stateFeature v \<equiv> \<lparr>properties = Some [''state'' \<mapsto> v]\<rparr>"

abbreviation oneLayerMap :: mapInstance where
  "oneLayerMap \<equiv>
     [''lidar-points'' \<mapsto> \<lparr>paint = Map.empty, layerFilter = Some (Arr [Str ''has'', Str ''Z''])\<rparr>]"

section \<open>Facts about strings and the score\<close>

lemma str_includes_iff: "str_includes s p \<longleftrightarrow> (\<exists>u v. s = u @ p @ v)"
proof (induction s)
  case Nil
  then show ?case by auto
next
  case (Cons c cs)
  show ?case
  proof
    assume "str_includes (c # cs) p"
    then consider "prefix p (c # cs)" | "str_includes cs p" by auto
    then show "\<exists>u v. c # cs = u @ p @ v"
    proof cases
      case 1
      then obtain v where "c # cs = p @ v" by (auto simp: prefix_def)
      then have "c # cs = [] @ p @ v" by simp
      then show ?thesis by blast
    next
      case 2
      with Cons.IH obtain u v where "cs = u @ p @ v" by blast
      then have "c # cs = (c # u) @ p @ v" by simp
      then show ?thesis by blast
    qed
  next
    assume "\<exists>u v. c # cs = u @ p @ v"
    then obtain u v where uv: "c # cs = u @ p @ v" by blast
    show "str_includes (c # cs) p"
    proof (cases u)
      case Nil
      with uv have "prefix p (c # cs)" by (simp add: prefix_def)
      then show ?thesis by simp
    next
      case (Cons a u')
      with uv have "cs = u' @ p @ v" by simp
      with Cons.IH have "str_includes cs p" by blast
      then show ?thesis by simp
    qed
  qed
qed

lemma contains_ci_iff: "contains_ci s p \<longleftrightarrow> str_includes (toUpperCase s) p"
proof
  assume "contains_ci s p"
  then obtain u w v where "s = u @ w @ v" "toUpperCase w = p"
    by (auto simp: contains_ci_def)
  then have "toUpperCase s = toUpperCase u @ p @ toUpperCase v"
    by (simp add: toUpperCase_def)
  then show "str_includes (toUpperCase s) p"
    unfolding str_includes_iff by blast
next
  assume "str_includes (toUpperCase s) p"
  then obtain u' v' where eq: "map upperChar s = u' @ p @ v'"
    unfolding str_includes_iff toUpperCase_def by blast
  define w where "w = take (length p) (drop (length u') s)"
  have "map upperChar w = take (length p) (drop (length u') (map upperChar s))"
    by (simp add: w_def take_map drop_map)
  with eq have "toUpperCase w = p"
    by (simp add: toUpperCase_def)
  moreover have "s = take (length u') s @ w @ drop (length p) (drop (length u') s)"
    by (simp add: w_def del: drop_drop)
  ultimately show "contains_ci s p"
    unfolding contains_ci_def by blast
qed

lemma labelHas_Some: "labelHas (Some s) k \<longleftrightarrow> str_includes (toUpperCase s) (qlTag k)"
  by (simp add: labelHas_def contains_ci_iff)

lemma labelHas_None: "\<not> labelHas None k"
  by (simp add: labelHas_def)

lemma labelHas_empty: "\<not> labelHas (Some []) k"
  by (simp add: labelHas_Some toUpperCase_def qlTag_def)

lemma qlTag_simps:
  "qlTag 0 = ''QL0''" "qlTag (Suc 0) = ''QL1''" "qlTag 1 = ''QL1''"
  "qlTag 2 = ''QL2''" "qlTag 3 = ''QL3''"
  by (simp_all add: qlTag_def)

text \<open>The score as a cascade over the specification's predicate.\<close>

lemma getQualityScore_cascade:
  "getQualityScore q =
     (if labelHas q 0 then 0 else if labelHas q 1 then 1
      else if labelHas q 2 then 2 else if labelHas q 3 then 3 else 9)"
proof (cases q)
  case None
  then show ?thesis
    by (simp add: getQualityScore_def js_or_def toUpperCase_def labelHas_None)
next
  case (Some s)
  show ?thesis
  proof (cases "s = []")
    case True
    with Some show ?thesis
      by (simp add: getQualityScore_def js_or_def toUpperCase_def labelHas_empty)
  next
    case False
    with Some show ?thesis
      by (simp add: getQualityScore_def js_or_def labelHas_Some qlTag_simps)
  qed
qed

lemma less4_cases: "k < 4 \<Longrightarrow> k = 0 \<or> k = Suc 0 \<or> k = 2 \<or> k = (3::nat)"
  by arith

lemma contains_ci_QL10: "contains_ci s ''QL10'' \<Longrightarrow> contains_ci s ''QL1''"
proof -
  assume "contains_ci s ''QL10''"
  then have "\<exists>u w v. s = u @ w @ v \<and> map upperChar w = ''QL10''"
    unfolding contains_ci_def toUpperCase_def .
  then obtain u w v where s: "s = u @ w @ v" and w: "map upperChar w = ''QL10''"
    by (elim exE conjE) (rule that)
  have "map upperChar (take 3 w) = take 3 (map upperChar w)"
    by (simp add: take_map)
  with w have "toUpperCase (take 3 w) = ''QL1''"
    by (simp add: toUpperCase_def)
  moreover from s have "s = u @ take 3 w @ (drop 3 w @ v)"
    by simp
  ultimately show ?thesis
    unfolding contains_ci_def by blast
qed

lemmas string_eval = toUpperCase_def upperChar_def labelHas_Some qlTag_simps

section \<open>Claims about the quality score\<close>

text \<open>
  C2, as amended. A label that contains exactly one of the tags QL0, QL1, QL2, QL3, in
  any letter case and with any surrounding text, scores the number of that tag; a label
  that contains none of them scores 9, and so do the absent label and the empty string.
  (A label with several tags is the subject of C10.)
\<close>

theorem getQualityScore_one_or_no_tag:
  "(\<forall>k<4. labelHas q k \<and> (\<forall>j<4. j \<noteq> k \<longrightarrow> \<not> labelHas q j) \<longrightarrow> getQualityScore q = k)
   \<and> ((\<forall>k<4. \<not> labelHas q k) \<longrightarrow> getQualityScore q = 9)
   \<and> getQualityScore None = 9 \<and> getQualityScore (Some []) = 9"
proof (intro conjI allI impI)
  fix k :: nat
  assume k: "k < 4" and h: "labelHas q k \<and> (\<forall>j<4. j \<noteq> k \<longrightarrow> \<not> labelHas q j)"
  from k have "k = 0 \<or> k = Suc 0 \<or> k = 2 \<or> k = 3" by (rule less4_cases)
  then show "getQualityScore q = k"
  proof (elim disjE)
    assume "k = 0"
    with h show ?thesis by (simp add: getQualityScore_cascade)
  next
    assume "k = Suc 0"
    with h have "labelHas q 1" "\<not> labelHas q 0" by auto
    with \<open>k = Suc 0\<close> show ?thesis by (simp add: getQualityScore_cascade)
  next
    assume "k = 2"
    with h have "labelHas q 2" "\<not> labelHas q 0" "\<not> labelHas q 1" by auto
    with \<open>k = 2\<close> show ?thesis by (simp add: getQualityScore_cascade)
  next
    assume "k = 3"
    with h have "labelHas q 3" "\<not> labelHas q 0" "\<not> labelHas q 1" "\<not> labelHas q 2" by auto
    with \<open>k = 3\<close> show ?thesis by (simp add: getQualityScore_cascade)
  qed
next
  assume "\<forall>k<4. \<not> labelHas q k"
  then have "\<not> labelHas q 0" "\<not> labelHas q 1" "\<not> labelHas q 2" "\<not> labelHas q 3" by auto
  then show "getQualityScore q = 9" by (simp add: getQualityScore_cascade)
next
  show "getQualityScore None = 9"
    by (simp add: getQualityScore_cascade labelHas_None)
next
  show "getQualityScore (Some []) = 9"
    by (simp add: getQualityScore_cascade labelHas_empty)
qed

text \<open>
  Witness for C2: the label \<open>usgs ql2 tile\<close> has the tag QL2 and no other and scores 2;
  the label \<open>unknown\<close> has no tag and scores 9.
\<close>

theorem getQualityScore_one_or_no_tag_witness:
  "labelHas (Some ''usgs ql2 tile'') 2
   \<and> \<not> labelHas (Some ''usgs ql2 tile'') 0
   \<and> \<not> labelHas (Some ''usgs ql2 tile'') 1
   \<and> \<not> labelHas (Some ''usgs ql2 tile'') 3
   \<and> getQualityScore (Some ''usgs ql2 tile'') = 2
   \<and> \<not> labelHas (Some ''unknown'') 0 \<and> \<not> labelHas (Some ''unknown'') 1
   \<and> \<not> labelHas (Some ''unknown'') 2 \<and> \<not> labelHas (Some ''unknown'') 3
   \<and> getQualityScore (Some ''unknown'') = 9"
proof -
  have a: "labelHas (Some ''usgs ql2 tile'') 2"
    by (simp add: string_eval)
  have b0: "\<not> labelHas (Some ''usgs ql2 tile'') 0" "\<not> labelHas (Some ''usgs ql2 tile'') 1"
    "\<not> labelHas (Some ''usgs ql2 tile'') 3"
    by (simp_all add: string_eval)
  have b: "\<forall>j<4. j \<noteq> 2 \<longrightarrow> \<not> labelHas (Some ''usgs ql2 tile'') j"
  proof (intro allI impI)
    fix j :: nat
    assume "j < 4" "j \<noteq> 2"
    then have "j = 0 \<or> j = Suc 0 \<or> j = 3" using less4_cases [of j] by simp
    then show "\<not> labelHas (Some ''usgs ql2 tile'') j"
      using b0 by (elim disjE) simp_all
  qed
  have c0: "\<not> labelHas (Some ''unknown'') 0" "\<not> labelHas (Some ''unknown'') 1"
    "\<not> labelHas (Some ''unknown'') 2" "\<not> labelHas (Some ''unknown'') 3"
    by (simp_all add: string_eval)
  have c: "\<forall>k<4. \<not> labelHas (Some ''unknown'') k"
  proof (intro allI impI)
    fix k :: nat
    assume "k < 4"
    then have "k = 0 \<or> k = Suc 0 \<or> k = 2 \<or> k = 3" by (rule less4_cases)
    then show "\<not> labelHas (Some ''unknown'') k"
      using c0 by (elim disjE) simp_all
  qed
  from a b getQualityScore_one_or_no_tag [of "Some ''usgs ql2 tile''"]
  have "getQualityScore (Some ''usgs ql2 tile'') = 2" by simp
  moreover from c getQualityScore_one_or_no_tag [of "Some ''unknown''"]
  have "getQualityScore (Some ''unknown'') = 9" by simp
  ultimately show ?thesis using a b0 c0 by simp
qed

text \<open>
  Counterexample to C2 as stated: the label \<open>QL1/QL2\<close> does not contain exactly one of
  the tags (it matches two), so it is one of the ``other'' inputs, and it scores 1, not 9.
\<close>

theorem getQualityScore_other_input_counterexample:
  "matchCount (Some ''QL1/QL2'') = 2 \<and> getQualityScore (Some ''QL1/QL2'') = 1"
  by (simp add: matchCount_def getQualityScore_cascade string_eval)

text \<open>
  C10. When a label contains several of the tags, the score is that of the lowest-numbered
  tag present, the tags being tested in the order QL0, QL1, QL2, QL3. A label with both
  QL3 and QL0 scores 0. A label containing QL10 contains QL1, so it never scores 9: it
  scores 1, unless QL0 is present too; the label \<open>QL10\<close> itself scores 1.
\<close>

theorem getQualityScore_lowest_tag:
  "(\<forall>k<4. labelHas q k \<and> (\<forall>j<k. \<not> labelHas q j) \<longrightarrow> getQualityScore q = k)
   \<and> (labelHas q 3 \<and> labelHas q 0 \<longrightarrow> getQualityScore q = 0)
   \<and> (contains_ci s ''QL10'' \<longrightarrow> getQualityScore (Some s) = (if labelHas (Some s) 0 then 0 else 1))
   \<and> getQualityScore (Some ''QL10'') = 1"
proof (intro conjI allI impI)
  fix k :: nat
  assume k: "k < 4" and h: "labelHas q k \<and> (\<forall>j<k. \<not> labelHas q j)"
  from k have "k = 0 \<or> k = Suc 0 \<or> k = 2 \<or> k = 3" by (rule less4_cases)
  then show "getQualityScore q = k"
  proof (elim disjE)
    assume "k = 0"
    with h show ?thesis by (simp add: getQualityScore_cascade)
  next
    assume "k = Suc 0"
    with h have "labelHas q 1" "\<not> labelHas q 0" by auto
    with \<open>k = Suc 0\<close> show ?thesis by (simp add: getQualityScore_cascade)
  next
    assume "k = 2"
    with h have "labelHas q 2" "\<not> labelHas q 0" "\<not> labelHas q 1" by auto
    with \<open>k = 2\<close> show ?thesis by (simp add: getQualityScore_cascade)
  next
    assume "k = 3"
    with h have "labelHas q 3" "\<not> labelHas q 0" "\<not> labelHas q 1" "\<not> labelHas q 2" by auto
    with \<open>k = 3\<close> show ?thesis by (simp add: getQualityScore_cascade)
  qed
next
  assume "labelHas q 3 \<and> labelHas q 0"
  then show "getQualityScore q = 0" by (simp add: getQualityScore_cascade)
next
  assume "contains_ci s ''QL10''"
  then have "contains_ci s ''QL1''" by (rule contains_ci_QL10)
  then have "labelHas (Some s) 1" by (simp add: labelHas_def qlTag_simps)
  then show "getQualityScore (Some s) = (if labelHas (Some s) 0 then 0 else 1)"
    by (simp add: getQualityScore_cascade)
next
  show "getQualityScore (Some ''QL10'') = 1"
    by (simp add: getQualityScore_cascade string_eval)
qed

text \<open>
  Witness for C10: \<open>ql3 and ql1\<close> has the tags QL1 and QL3, QL1 being the lowest, and
  scores 1; \<open>QL3, QL0\<close> scores 0; \<open>tier QL10\<close> contains QL10 and scores 1.
\<close>

theorem getQualityScore_lowest_tag_witness:
  "labelHas (Some ''ql3 and ql1'') 1 \<and> labelHas (Some ''ql3 and ql1'') 3
   \<and> \<not> labelHas (Some ''ql3 and ql1'') 0
   \<and> getQualityScore (Some ''ql3 and ql1'') = 1
   \<and> labelHas (Some ''QL3, QL0'') 3 \<and> labelHas (Some ''QL3, QL0'') 0
   \<and> getQualityScore (Some ''QL3, QL0'') = 0
   \<and> contains_ci ''tier QL10'' ''QL10''
   \<and> getQualityScore (Some ''tier QL10'') = 1"
proof -
  have a: "labelHas (Some ''ql3 and ql1'') 1" "labelHas (Some ''ql3 and ql1'') 3"
    by (simp_all add: string_eval)
  have b0: "\<not> labelHas (Some ''ql3 and ql1'') 0"
    by (simp add: string_eval)
  then have b: "\<forall>j<1. \<not> labelHas (Some ''ql3 and ql1'') j"
    by simp
  have c: "labelHas (Some ''QL3, QL0'') 3" "labelHas (Some ''QL3, QL0'') 0"
    by (simp_all add: string_eval)
  have d: "contains_ci ''tier QL10'' ''QL10''"
    by (simp add: contains_ci_iff toUpperCase_def upperChar_def)
  have e: "\<not> labelHas (Some ''tier QL10'') 0"
    by (simp add: string_eval)
  from a(1) b getQualityScore_lowest_tag [of "Some ''ql3 and ql1''" "''tier QL10''"]
  have "getQualityScore (Some ''ql3 and ql1'') = 1" by simp
  moreover from c getQualityScore_lowest_tag [of "Some ''QL3, QL0''" "''tier QL10''"]
  have "getQualityScore (Some ''QL3, QL0'') = 0" by simp
  moreover from d e getQualityScore_lowest_tag [of "Some ''QL3, QL0''" "''tier QL10''"]
  have "getQualityScore (Some ''tier QL10'') = 1" by simp
  ultimately show ?thesis using a b0 c d by simp
qed


section \<open>Facts about the sort\<close>

lemma mset_insert_sorted: "mset (insert_sorted c x ys) = add_mset x (mset ys)"
  by (induction ys) auto

lemma mset_array_sort: "mset (array_sort c xs) = mset xs"
  by (induction xs) (auto simp: mset_insert_sorted)

lemma set_insert_sorted: "set (insert_sorted c x ys) = insert x (set ys)"
  by (induction ys) auto

lemma set_array_sort: "set (array_sort c xs) = set xs"
  using mset_array_sort [of c xs] by (metis set_mset_mset)

text \<open>
  Insertion leaves the elements that satisfy \<open>P\<close> in their order, as long as the new
  element does not compare greater than any of them.
\<close>

lemma filter_insert_sorted:
  assumes "P x \<Longrightarrow> \<forall>y\<in>set ys. P y \<longrightarrow> c x y \<le> 0"
  shows "filter P (insert_sorted c x ys) = (if P x then x # filter P ys else filter P ys)"
  using assms by (induction ys) auto

lemma filter_array_sort:
  assumes "\<And>x y. x \<in> set xs \<Longrightarrow> y \<in> set xs \<Longrightarrow> P x \<Longrightarrow> P y \<Longrightarrow> c x y \<le> 0"
  shows "filter P (array_sort c xs) = filter P xs"
  using assms
proof (induction xs)
  case Nil
  show ?case by simp
next
  case (Cons x xs)
  have "filter P (insert_sorted c x (array_sort c xs))
      = (if P x then x # filter P (array_sort c xs) else filter P (array_sort c xs))"
    by (rule filter_insert_sorted) (simp add: set_array_sort Cons.prems)
  moreover have "filter P (array_sort c xs) = filter P xs"
    by (rule Cons.IH) (simp add: Cons.prems)
  ultimately show ?case by simp
qed

text \<open>A consistent comparator is total and transitive as an order.\<close>

lemma consistent_subset: "consistentOn c S \<Longrightarrow> T \<subseteq> S \<Longrightarrow> consistentOn c T"
  unfolding consistentOn_def by blast

lemma consistent_refl: "consistentOn c S \<Longrightarrow> a \<in> S \<Longrightarrow> c a a = 0"
  unfolding consistentOn_def by blast

lemma consistent_sym: "consistentOn c S \<Longrightarrow> a \<in> S \<Longrightarrow> b \<in> S \<Longrightarrow> c a b = 0 \<Longrightarrow> c b a = 0"
  unfolding consistentOn_def by blast

lemma consistent_eq_trans:
  "consistentOn c S \<Longrightarrow> a \<in> S \<Longrightarrow> b \<in> S \<Longrightarrow> d \<in> S \<Longrightarrow> c a b = 0 \<Longrightarrow> c b d = 0 \<Longrightarrow> c a d = 0"
  unfolding consistentOn_def by blast

lemma consistent_less_trans:
  "consistentOn c S \<Longrightarrow> a \<in> S \<Longrightarrow> b \<in> S \<Longrightarrow> d \<in> S \<Longrightarrow> c a b < 0 \<Longrightarrow> c b d < 0 \<Longrightarrow> c a d < 0"
  unfolding consistentOn_def by blast

lemma consistent_greater_trans:
  "consistentOn c S \<Longrightarrow> a \<in> S \<Longrightarrow> b \<in> S \<Longrightarrow> d \<in> S \<Longrightarrow> 0 < c a b \<Longrightarrow> 0 < c b d \<Longrightarrow> 0 < c a d"
  unfolding consistentOn_def by blast

lemma consistent_flip:
  assumes cons: "consistentOn c S" and a: "a \<in> S" and b: "b \<in> S" and less: "c a b < 0"
  shows "0 < c b a"
proof (rule ccontr)
  assume "\<not> 0 < c b a"
  then consider "c b a = 0" | "c b a < 0" by linarith
  then show False
  proof cases
    case 1
    with consistent_sym [OF cons b a] less show False by simp
  next
    case 2
    with consistent_less_trans [OF cons a b a less] consistent_refl [OF cons a]
    show False by simp
  qed
qed

lemma consistent_flip':
  assumes cons: "consistentOn c S" and a: "a \<in> S" and b: "b \<in> S" and gr: "0 < c a b"
  shows "c b a < 0"
proof (rule ccontr)
  assume "\<not> c b a < 0"
  then consider "c b a = 0" | "0 < c b a" by linarith
  then show False
  proof cases
    case 1
    with consistent_sym [OF cons b a] gr show False by simp
  next
    case 2
    with consistent_greater_trans [OF cons a b a gr] consistent_refl [OF cons a]
    show False by simp
  qed
qed

lemma consistent_total:
  assumes "consistentOn c S" and "a \<in> S" and "b \<in> S"
  shows "c a b \<le> 0 \<or> c b a \<le> 0"
  using consistent_flip' [OF assms] by linarith

lemma consistent_trans:
  assumes cons: "consistentOn c S" and a: "a \<in> S" and b: "b \<in> S" and d: "d \<in> S"
    and ab: "c a b \<le> 0" and bd: "c b d \<le> 0"
  shows "c a d \<le> 0"
proof (rule ccontr)
  assume "\<not> c a d \<le> 0"
  then have ad: "0 < c a d" by simp
  then have da: "c d a < 0" by (rule consistent_flip' [OF cons a d])
  from ab consider "c a b < 0" | "c a b = 0" by linarith
  then show False
  proof cases
    case 1
    with da have "c d b < 0" by (rule consistent_less_trans [OF cons d a b])
    then have "0 < c b d" by (rule consistent_flip [OF cons d b])
    with bd show False by simp
  next
    case 2
    from bd consider "c b d < 0" | "c b d = 0" by linarith
    then show False
    proof cases
      case 1
      then have "c b a < 0" using da by (rule consistent_less_trans [OF cons b d a])
      moreover from 2 have "c b a = 0" by (rule consistent_sym [OF cons a b])
      ultimately show False by simp
    next
      case 2
      with \<open>c a b = 0\<close> have "c a d = 0" by (rule consistent_eq_trans [OF cons a b d])
      with ad show False by simp
    qed
  qed
qed

text \<open>
  On a set \<open>A\<close> of elements where the comparator is total and transitive, the insertion
  sort yields a sorted list.
\<close>

lemma sorted_insert_sorted:
  assumes x: "x \<in> A" and ys: "set ys \<subseteq> A"
    and srt: "sorted_wrt (\<lambda>a b. c a b \<le> 0) ys"
    and tot: "\<And>a b. a \<in> A \<Longrightarrow> b \<in> A \<Longrightarrow> c a b \<le> 0 \<or> c b a \<le> 0"
    and trans: "\<And>a b d. a \<in> A \<Longrightarrow> b \<in> A \<Longrightarrow> d \<in> A \<Longrightarrow> c a b \<le> 0 \<Longrightarrow> c b d \<le> 0 \<Longrightarrow> c a d \<le> 0"
  shows "sorted_wrt (\<lambda>a b. c a b \<le> 0) (insert_sorted c x ys)"
  using ys srt
proof (induction ys)
  case Nil
  show ?case by simp
next
  case (Cons y ys)
  from Cons.prems have y: "y \<in> A" and ysA: "set ys \<subseteq> A"
    and yle: "\<forall>z\<in>set ys. c y z \<le> 0" and ysrt: "sorted_wrt (\<lambda>a b. c a b \<le> 0) ys"
    by simp_all
  show ?case
  proof (cases "c x y \<le> 0")
    case True
    have "c x z \<le> 0" if "z \<in> set ys" for z
    proof -
      from that yle ysA have "c y z \<le> 0" "z \<in> A" by auto
      with True x y show ?thesis using trans [of x y z] by simp
    qed
    with True yle ysrt show ?thesis by simp
  next
    case False
    with tot [of x y] x y have "c y x \<le> 0" by simp
    moreover from Cons.IH ysA ysrt
    have "sorted_wrt (\<lambda>a b. c a b \<le> 0) (insert_sorted c x ys)" by simp
    ultimately show ?thesis
      using False yle by (simp add: set_insert_sorted)
  qed
qed

lemma sorted_array_sort:
  assumes sub: "set xs \<subseteq> A"
    and tot: "\<And>a b. a \<in> A \<Longrightarrow> b \<in> A \<Longrightarrow> c a b \<le> 0 \<or> c b a \<le> 0"
    and trans: "\<And>a b d. a \<in> A \<Longrightarrow> b \<in> A \<Longrightarrow> d \<in> A \<Longrightarrow> c a b \<le> 0 \<Longrightarrow> c b d \<le> 0 \<Longrightarrow> c a d \<le> 0"
  shows "sorted_wrt (\<lambda>a b. c a b \<le> 0) (array_sort c xs)"
  using sub
proof (induction xs)
  case Nil
  show ?case by simp
next
  case (Cons x xs)
  then have x: "x \<in> A" and s: "set (array_sort c xs) \<subseteq> A"
    and srt: "sorted_wrt (\<lambda>a b. c a b \<le> 0) (array_sort c xs)"
    by (simp_all add: set_array_sort)
  have "sorted_wrt (\<lambda>a b. c a b \<le> 0) (insert_sorted c x (array_sort c xs))"
    using x s srt
  proof (rule sorted_insert_sorted)
    show "c a b \<le> 0 \<or> c b a \<le> 0" if "a \<in> A" "b \<in> A" for a b
      using that by (rule tot)
    show "c a d \<le> 0" if "a \<in> A" "b \<in> A" "d \<in> A" "c a b \<le> 0" "c b d \<le> 0" for a b d
      using that by (rule trans)
  qed
  then show ?case by simp
qed

text \<open>The insertion sort is an engine sort as ECMAScript describes one.\<close>

lemma array_sort_contract: "sortContract array_sort"
  unfolding sortContract_def
proof (intro allI conjI impI ballI)
  fix c :: "'a \<Rightarrow> 'a \<Rightarrow> int" and xs :: "'a list"
  show "mset (array_sort c xs) = mset xs"
    by (rule mset_array_sort)
next
  fix c :: "'a \<Rightarrow> 'a \<Rightarrow> int" and xs :: "'a list"
  assume cons: "consistentOn c (set xs)"
  show "sorted_wrt (\<lambda>a b. c a b \<le> 0) (array_sort c xs)"
  proof (rule sorted_array_sort [where A = "set xs"])
    show "set xs \<subseteq> set xs" by simp
    show "c a b \<le> 0 \<or> c b a \<le> 0" if "a \<in> set xs" "b \<in> set xs" for a b
      using cons that by (rule consistent_total)
    show "c a d \<le> 0"
      if "a \<in> set xs" "b \<in> set xs" "d \<in> set xs" "c a b \<le> 0" "c b d \<le> 0" for a b d
      using cons that by (rule consistent_trans)
  qed
next
  fix c :: "'a \<Rightarrow> 'a \<Rightarrow> int" and xs :: "'a list" and k
  assume cons: "consistentOn c (set xs)" and k: "k \<in> set xs"
  show "filter (\<lambda>x. c k x = 0) (array_sort c xs) = filter (\<lambda>x. c k x = 0) xs"
  proof (rule filter_array_sort)
    fix x y
    assume x: "x \<in> set xs" and y: "y \<in> set xs" and kx: "c k x = 0" and ky: "c k y = 0"
    from kx have "c x k = 0" by (rule consistent_sym [OF cons k x])
    then have "c x y = 0" using ky by (rule consistent_eq_trans [OF cons x k y])
    then show "c x y \<le> 0" by simp
  qed
qed

text \<open>What the contract gives for any engine.\<close>

lemma contract_mset: "sortContract srt \<Longrightarrow> mset (srt c xs) = mset xs"
  unfolding sortContract_def by blast

lemma contract_set: "sortContract srt \<Longrightarrow> set (srt c xs) = set xs"
  using contract_mset [of srt c xs] by (metis set_mset_mset)

lemma contract_sorted:
  "sortContract srt \<Longrightarrow> consistentOn c (set xs) \<Longrightarrow> sorted_wrt (\<lambda>a b. c a b \<le> 0) (srt c xs)"
  unfolding sortContract_def by blast

lemma contract_stable:
  "sortContract srt \<Longrightarrow> consistentOn c (set xs) \<Longrightarrow> k \<in> set xs \<Longrightarrow>
     filter (\<lambda>x. c k x = 0) (srt c xs) = filter (\<lambda>x. c k x = 0) xs"
  unfolding sortContract_def by blast

text \<open>
  The head of the sorted list is the first of the least elements of the input.
\<close>

lemma contract_head:
  assumes con: "sortContract srt" and cons: "consistentOn c (set xs)" and ne: "xs \<noteq> []"
  shows "\<exists>b rest us vs. srt c xs = b # rest \<and> xs = us @ b # vs
            \<and> (\<forall>u\<in>set us. c b u \<noteq> 0) \<and> (\<forall>d\<in>set xs. c b d \<le> 0)"
proof -
  from ne contract_mset [OF con, of c xs] have "srt c xs \<noteq> []" by auto
  then obtain b rest where s: "srt c xs = b # rest" by (cases "srt c xs") auto
  from contract_set [OF con, of c xs] s have sets: "set xs = insert b (set rest)" by simp
  then have b: "b \<in> set xs" by simp
  from cons b have bb: "c b b = 0" by (rule consistent_refl)
  from contract_sorted [OF con cons] s have "\<forall>d\<in>set rest. c b d \<le> 0" by simp
  with bb sets have least: "\<forall>d\<in>set xs. c b d \<le> 0" by simp
  from contract_stable [OF con cons b] s bb
  have "filter (\<lambda>x. c b x = 0) xs = b # filter (\<lambda>x. c b x = 0) rest" by simp
  then obtain us vs where "xs = us @ b # vs" "\<forall>u\<in>set us. c b u \<noteq> 0"
    unfolding filter_eq_Cons_iff by blast
  with s least have "srt c xs = b # rest \<and> xs = us @ b # vs
            \<and> (\<forall>u\<in>set us. c b u \<noteq> 0) \<and> (\<forall>d\<in>set xs. c b d \<le> 0)"
    by simp
  then show ?thesis by (intro exI)
qed


section \<open>The sort of V8 keeps the contract\<close>

lemma mset_binaryInsert: "mset (binaryInsert c pivot work) = add_mset pivot (mset work)"
proof -
  have "mset (take n work) + mset (drop n work) = mset work" for n
    by (metis append_take_drop_id mset_append)
  then show ?thesis
    by (simp add: binaryInsert_def Let_def)
qed

lemma mset_fold_binaryInsert: "mset (fold (binaryInsert c) rest work) = mset work + mset rest"
  by (induction rest arbitrary: work) (simp_all add: mset_binaryInsert)

lemma countAndMakeRun_Cons2:
  "countAndMakeRun c (x0 # x1 # zs)
     = (if c x1 x0 < 0
        then rev (take (2 + countRun c (c x1 x0 < 0) x1 zs) (x0 # x1 # zs))
        else take (2 + countRun c (c x1 x0 < 0) x1 zs) (x0 # x1 # zs),
        drop (2 + countRun c (c x1 x0 < 0) x1 zs) (x0 # x1 # zs))"
  by (simp only: countAndMakeRun_def list.case Let_def)

lemma mset_countAndMakeRun:
  "countAndMakeRun c xs = (run, rest) \<Longrightarrow> mset run + mset rest = mset xs"
proof -
  assume a: "countAndMakeRun c xs = (run, rest)"
  have td: "mset (take n xs) + mset (drop n xs) = mset xs" for n
    by (metis append_take_drop_id mset_append)
  show ?thesis
  proof (cases xs)
    case Nil
    with a show ?thesis by (simp add: countAndMakeRun_def)
  next
    case (Cons x0 ys)
    show ?thesis
    proof (cases ys)
      case Nil
      with Cons a show ?thesis by (simp add: countAndMakeRun_def)
    next
      case (Cons x1 zs)
      let ?n = "2 + countRun c (c x1 x0 < 0) x1 zs"
      from \<open>xs = x0 # ys\<close> Cons have xs: "xs = x0 # x1 # zs" by simp
      from a have "run = (if c x1 x0 < 0 then rev (take ?n xs) else take ?n xs)" "rest = drop ?n xs"
        unfolding xs countAndMakeRun_Cons2 by (simp_all only: prod.inject)
      with td [of ?n] show ?thesis by (simp split: if_splits del: take_Suc_Cons drop_Suc_Cons)
    qed
  qed
qed

lemma mset_v8_sort: "mset (v8_sort c xs) = mset xs"
proof -
  obtain run rest where r: "countAndMakeRun c xs = (run, rest)"
    by (cases "countAndMakeRun c xs")
  then show ?thesis
    by (simp add: v8_sort_def mset_fold_binaryInsert mset_countAndMakeRun)
qed

text \<open>
  The binary search: when ``pivot compares less'' is upward closed along the work list,
  the position found has no such element before it and only such elements from it on.
\<close>

lemma binarySearch_position:
  assumes "left \<le> right" and "right \<le> length work"
    and "\<forall>i<left. \<not> c pivot (work ! i) < 0"
    and "\<forall>i. right \<le> i \<and> i < length work \<longrightarrow> c pivot (work ! i) < 0"
    and mono: "\<And>i j. i \<le> j \<Longrightarrow> j < length work \<Longrightarrow> c pivot (work ! i) < 0
                 \<Longrightarrow> c pivot (work ! j) < 0"
  shows "binarySearch c pivot work left right \<le> length work
     \<and> (\<forall>i<binarySearch c pivot work left right. \<not> c pivot (work ! i) < 0)
     \<and> (\<forall>i. binarySearch c pivot work left right \<le> i \<and> i < length work
            \<longrightarrow> c pivot (work ! i) < 0)"
  using assms
proof (induction c pivot work left right rule: binarySearch.induct)
  case (1 c pivot work left right)
  show ?case
  proof (cases "left < right")
    case False
    then have "binarySearch c pivot work left right = left"
      by (simp add: binarySearch.simps [of c pivot work left right])
    moreover from False "1.prems"(1) have "left = right" by simp
    ultimately show ?thesis
      using "1.prems"(2,3,4) by simp
  next
    case True
    define mid where "mid = left + (right - left) div 2"
    from True have mid: "left \<le> mid" "mid < right" by (simp_all add: mid_def)
    show ?thesis
    proof (cases "c pivot (work ! mid) < 0")
      case less: True
      have eq: "binarySearch c pivot work left right = binarySearch c pivot work left mid"
        using True less by (simp add: binarySearch.simps [of c pivot work left right] mid_def Let_def)
      have "\<forall>i. mid \<le> i \<and> i < length work \<longrightarrow> c pivot (work ! i) < 0"
        using less "1.prems"(5) by blast
      with "1.IH"(1) [OF True mid_def less mid(1)] mid "1.prems"
      show ?thesis unfolding eq by simp
    next
      case notless: False
      have eq: "binarySearch c pivot work left right = binarySearch c pivot work (mid + 1) right"
        using True notless by (simp add: binarySearch.simps [of c pivot work left right] mid_def Let_def)
      have "\<forall>i<mid + 1. \<not> c pivot (work ! i) < 0"
      proof (intro allI impI)
        fix i
        assume "i < mid + 1"
        then have "i \<le> mid" by simp
        moreover from mid "1.prems"(2) have "mid < length work" by simp
        ultimately show "\<not> c pivot (work ! i) < 0"
          using notless "1.prems"(5) [of i mid] by blast
      qed
      with "1.IH"(2) [OF True mid_def notless] mid "1.prems"
      show ?thesis unfolding eq by simp
    qed
  qed
qed

text \<open>Along a sorted list ``pivot compares less'' is upward closed.\<close>

lemma less_upward:
  assumes cons: "consistentOn c S" and p: "pivot \<in> S" and a: "a \<in> S" and b: "b \<in> S"
    and ab: "c a b \<le> 0" and pa: "c pivot a < 0"
  shows "c pivot b < 0"
proof (rule ccontr)
  assume "\<not> c pivot b < 0"
  then have "c b pivot \<le> 0"
    using consistent_flip' [OF cons p b] consistent_sym [OF cons p b] by (cases "c pivot b = 0") auto
  with ab have "c a pivot \<le> 0" by (rule consistent_trans [OF cons a b p])
  moreover from pa have "0 < c a pivot" by (rule consistent_flip [OF cons p a])
  ultimately show False by simp
qed

lemma binaryInsert_position:
  assumes cons: "consistentOn c S" and p: "pivot \<in> S" and w: "set work \<subseteq> S"
    and srt: "sorted_wrt (\<lambda>a b. c a b \<le> 0) work"
  shows "\<exists>l. binaryInsert c pivot work = take l work @ pivot # drop l work
     \<and> (\<forall>e\<in>set (take l work). \<not> c pivot e < 0)
     \<and> (\<forall>e\<in>set (drop l work). c pivot e < 0)"
proof -
  let ?l = "binarySearch c pivot work 0 (length work)"
  have mono: "c pivot (work ! j) < 0"
    if "i \<le> j" "j < length work" "c pivot (work ! i) < 0" for i j
  proof (cases "i = j")
    case True
    with that show ?thesis by simp
  next
    case False
    with that have ij: "i < j" by simp
    with srt that have "c (work ! i) (work ! j) \<le> 0"
      by (simp add: sorted_wrt_iff_nth_less)
    moreover from w that ij have "work ! i \<in> S" "work ! j \<in> S"
      by (auto simp: subset_iff)
    ultimately show ?thesis
      using that(3) less_upward [OF cons p] by blast
  qed
  have pos: "?l \<le> length work
     \<and> (\<forall>i<?l. \<not> c pivot (work ! i) < 0)
     \<and> (\<forall>i. ?l \<le> i \<and> i < length work \<longrightarrow> c pivot (work ! i) < 0)"
    by (rule binarySearch_position) (use mono in simp_all)
  have "\<forall>e\<in>set (take ?l work). \<not> c pivot e < 0"
  proof
    fix e
    assume "e \<in> set (take ?l work)"
    then obtain i where "i < length (take ?l work)" "take ?l work ! i = e"
      by (auto simp: in_set_conv_nth)
    with pos show "\<not> c pivot e < 0" by auto
  qed
  moreover have "\<forall>e\<in>set (drop ?l work). c pivot e < 0"
  proof
    fix e
    assume "e \<in> set (drop ?l work)"
    then obtain i where i: "i < length (drop ?l work)" "drop ?l work ! i = e"
      by (auto simp: in_set_conv_nth)
    then have "?l \<le> ?l + i \<and> ?l + i < length work" by simp
    with pos have "c pivot (work ! (?l + i)) < 0" by blast
    with i pos show "c pivot e < 0" by simp
  qed
  ultimately show ?thesis
    by (intro exI [of _ ?l]) (simp add: binaryInsert_def Let_def)
qed

lemma set_binaryInsert: "set (binaryInsert c pivot work) = insert pivot (set work)"
  using mset_binaryInsert [of c pivot work] by (metis set_mset_add_mset_insert set_mset_mset)

lemma sorted_binaryInsert:
  assumes cons: "consistentOn c S" and p: "pivot \<in> S" and w: "set work \<subseteq> S"
    and srt: "sorted_wrt (\<lambda>a b. c a b \<le> 0) work"
  shows "sorted_wrt (\<lambda>a b. c a b \<le> 0) (binaryInsert c pivot work)"
proof -
  from binaryInsert_position [OF assms] obtain l where
    eq: "binaryInsert c pivot work = take l work @ pivot # drop l work"
    and before: "\<forall>e\<in>set (take l work). \<not> c pivot e < 0"
    and after: "\<forall>e\<in>set (drop l work). c pivot e < 0"
    by blast
  from srt have "sorted_wrt (\<lambda>a b. c a b \<le> 0) (take l work @ drop l work)" by simp
  then have parts: "sorted_wrt (\<lambda>a b. c a b \<le> 0) (take l work)"
    "sorted_wrt (\<lambda>a b. c a b \<le> 0) (drop l work)"
    "\<forall>x\<in>set (take l work). \<forall>y\<in>set (drop l work). c x y \<le> 0"
    unfolding sorted_wrt_append by simp_all
  have "c e pivot \<le> 0" if "e \<in> set (take l work)" for e
  proof -
    from that w have e: "e \<in> S" by (auto dest: in_set_takeD)
    from that before have "\<not> c pivot e < 0" by simp
    then show ?thesis
      using consistent_flip' [OF cons p e] consistent_sym [OF cons p e]
      by (cases "c pivot e = 0") auto
  qed
  moreover from after have "\<forall>e\<in>set (drop l work). c pivot e \<le> 0" by auto
  ultimately show ?thesis
    unfolding eq sorted_wrt_append using parts by simp
qed

lemma filter_binaryInsert:
  assumes cons: "consistentOn c S" and p: "pivot \<in> S" and w: "set work \<subseteq> S"
    and srt: "sorted_wrt (\<lambda>a b. c a b \<le> 0) work" and k: "k \<in> S"
  shows "filter (\<lambda>x. c k x = 0) (binaryInsert c pivot work)
       = filter (\<lambda>x. c k x = 0) work @ filter (\<lambda>x. c k x = 0) [pivot]"
proof -
  from binaryInsert_position [OF cons p w srt] obtain l where
    eq: "binaryInsert c pivot work = take l work @ pivot # drop l work"
    and after: "\<forall>e\<in>set (drop l work). c pivot e < 0"
    by blast
  have split: "filter (\<lambda>x. c k x = 0) work
      = filter (\<lambda>x. c k x = 0) (take l work) @ filter (\<lambda>x. c k x = 0) (drop l work)"
    by (metis append_take_drop_id filter_append)
  show ?thesis
  proof (cases "c k pivot = 0")
    case False
    with eq split show ?thesis by simp
  next
    case True
    have "c k e \<noteq> 0" if "e \<in> set (drop l work)" for e
    proof
      assume ke: "c k e = 0"
      from that w have e: "e \<in> S" by (auto dest: in_set_dropD)
      from True have "c pivot k = 0" by (rule consistent_sym [OF cons k p])
      then have "c pivot e = 0" using ke by (rule consistent_eq_trans [OF cons p k e])
      with after that show False by auto
    qed
    then have "filter (\<lambda>x. c k x = 0) (drop l work) = []"
      by (simp add: filter_empty_conv)
    with eq split True show ?thesis by simp
  qed
qed

lemma fold_binaryInsert_sorted:
  assumes cons: "consistentOn c S"
  shows "set work \<subseteq> S \<Longrightarrow> set rest \<subseteq> S \<Longrightarrow> sorted_wrt (\<lambda>a b. c a b \<le> 0) work \<Longrightarrow>
     sorted_wrt (\<lambda>a b. c a b \<le> 0) (fold (binaryInsert c) rest work)"
proof (induction rest arbitrary: work)
  case Nil
  then show ?case by simp
next
  case (Cons pivot rest)
  from Cons.prems have p: "pivot \<in> S" and r: "set rest \<subseteq> S" by simp_all
  have "sorted_wrt (\<lambda>a b. c a b \<le> 0) (binaryInsert c pivot work)"
    using cons p Cons.prems(1,3) by (rule sorted_binaryInsert)
  moreover from p Cons.prems(1) have "set (binaryInsert c pivot work) \<subseteq> S"
    by (simp add: set_binaryInsert)
  ultimately show ?case
    using Cons.IH r by simp
qed

lemma fold_binaryInsert_filter:
  assumes cons: "consistentOn c S" and k: "k \<in> S"
  shows "set work \<subseteq> S \<Longrightarrow> set rest \<subseteq> S \<Longrightarrow> sorted_wrt (\<lambda>a b. c a b \<le> 0) work \<Longrightarrow>
     filter (\<lambda>x. c k x = 0) (fold (binaryInsert c) rest work)
       = filter (\<lambda>x. c k x = 0) work @ filter (\<lambda>x. c k x = 0) rest"
proof (induction rest arbitrary: work)
  case Nil
  then show ?case by simp
next
  case (Cons pivot rest)
  from Cons.prems have p: "pivot \<in> S" and r: "set rest \<subseteq> S" by simp_all
  have s: "sorted_wrt (\<lambda>a b. c a b \<le> 0) (binaryInsert c pivot work)"
    using cons p Cons.prems(1,3) by (rule sorted_binaryInsert)
  from p Cons.prems(1) have sub: "set (binaryInsert c pivot work) \<subseteq> S"
    by (simp add: set_binaryInsert)
  have "filter (\<lambda>x. c k x = 0) (fold (binaryInsert c) rest (binaryInsert c pivot work))
      = filter (\<lambda>x. c k x = 0) (binaryInsert c pivot work) @ filter (\<lambda>x. c k x = 0) rest"
    using sub r s by (rule Cons.IH)
  also have "filter (\<lambda>x. c k x = 0) (binaryInsert c pivot work)
      = filter (\<lambda>x. c k x = 0) work @ filter (\<lambda>x. c k x = 0) [pivot]"
    using cons p Cons.prems(1,3) k by (rule filter_binaryInsert)
  finally show ?case by simp
qed

text \<open>The run at the front: each element is tied to the one before it.\<close>

lemma countRun_chain:
  "successively (\<lambda>a b. if isDescending then c b a < 0 else \<not> c b a < 0)
     (previous # take (countRun c isDescending previous rest) rest)"
  by (induction rest arbitrary: previous) (auto simp: not_le)

lemma chain_sorted:
  assumes trans: "\<And>a b d. a \<in> set xs \<Longrightarrow> b \<in> set xs \<Longrightarrow> d \<in> set xs \<Longrightarrow> R a b \<Longrightarrow> R b d \<Longrightarrow> R a d"
    and chain: "successively R xs"
  shows "sorted_wrt R xs"
  using assms
proof (induction xs rule: induct_list012)
  case 1
  show ?case by simp
next
  case (2 x)
  show ?case by simp
next
  case (3 x y zs)
  from "3.prems"(2) have xy: "R x y" and rest: "successively R (y # zs)" by simp_all
  have srt: "sorted_wrt R (y # zs)"
    by (rule "3.IH"(2)) (use "3.prems"(1) rest in auto)
  have "R x z" if "z \<in> set zs" for z
  proof -
    from srt that have "R y z" by simp
    with xy show ?thesis using "3.prems"(1) [of x y z] that by simp
  qed
  with xy srt show ?case by simp
qed

lemma rev_filter_distinct:
  assumes "sorted_wrt (\<lambda>a b. \<not> (P a \<and> P b)) xs"
  shows "filter P (rev xs) = filter P xs"
  using assms
proof (induction xs)
  case Nil
  show ?case by simp
next
  case (Cons x xs)
  then have ih: "filter P (rev xs) = filter P xs" by simp
  show ?case
  proof (cases "P x")
    case False
    with ih show ?thesis by simp
  next
    case True
    with Cons.prems have "\<forall>y\<in>set xs. \<not> P y" by simp
    then have "filter P xs = []" by (simp add: filter_empty_conv)
    with ih True show ?thesis by simp
  qed
qed

lemma countAndMakeRun_run:
  assumes cons: "consistentOn c (set xs)" and r: "countAndMakeRun c xs = (run, rest)"
  shows "sorted_wrt (\<lambda>a b. c a b \<le> 0) run
     \<and> (\<forall>k\<in>set xs. filter (\<lambda>x. c k x = 0) run @ filter (\<lambda>x. c k x = 0) rest
                       = filter (\<lambda>x. c k x = 0) xs)"
proof (cases xs)
  case Nil
  with r show ?thesis by (simp add: countAndMakeRun_def)
next
  case (Cons x0 ys)
  show ?thesis
  proof (cases ys)
    case Nil
    with Cons r show ?thesis by (auto simp: countAndMakeRun_def)
  next
    case (Cons x1 zs)
    let ?desc = "c x1 x0 < 0"
    let ?n = "2 + countRun c ?desc x1 zs"
    let ?front = "take ?n xs"
    from \<open>xs = x0 # ys\<close> Cons have xs: "xs = x0 # x1 # zs" by simp
    from r have run: "run = (if ?desc then rev ?front else ?front)" and rest: "rest = drop ?n xs"
      unfolding xs countAndMakeRun_Cons2 by (simp_all only: prod.inject)
    have front: "?front = x0 # x1 # take (countRun c ?desc x1 zs) zs"
      unfolding xs by simp
    have sub: "set ?front \<subseteq> set xs" by (rule set_take_subset)
    have chain: "successively (\<lambda>a b. if ?desc then c b a < 0 else \<not> c b a < 0) ?front"
      unfolding front using countRun_chain [of ?desc c x1 zs] by simp
    have whole: "filter P ?front @ filter P rest = filter P xs" for P
      unfolding rest by (metis append_take_drop_id filter_append)
    show ?thesis
    proof (cases ?desc)
      case False
      with chain have "successively (\<lambda>a b. \<not> c b a < 0) ?front" by simp
      then have "successively (\<lambda>a b. c a b \<le> 0) ?front"
      proof (rule successively_mono [rotated 2])
        show "c a b \<le> 0" if "a \<in> set ?front" "b \<in> set ?front" "\<not> c b a < 0" for a b
        proof -
          from that sub have a: "a \<in> set xs" and b: "b \<in> set xs" by auto
          from that(3) show ?thesis
            using consistent_flip' [OF cons b a] consistent_sym [OF cons b a]
            by (cases "c b a = 0") auto
        qed
      qed
      then have "sorted_wrt (\<lambda>a b. c a b \<le> 0) ?front"
      proof (rule chain_sorted [rotated])
        show "c a d \<le> 0"
          if "a \<in> set ?front" "b \<in> set ?front" "d \<in> set ?front" "c a b \<le> 0" "c b d \<le> 0" for a b d
          using that sub consistent_trans [OF cons, of a b d] by auto
      qed
      with False run whole show ?thesis by simp
    next
      case True
      with chain have "successively (\<lambda>a b. c b a < 0) ?front" by simp
      then have strict: "sorted_wrt (\<lambda>a b. c b a < 0) ?front"
      proof (rule chain_sorted [rotated])
        show "c d a < 0"
          if "a \<in> set ?front" "b \<in> set ?front" "d \<in> set ?front" "c b a < 0" "c d b < 0" for a b d
          using that sub consistent_less_trans [OF cons, of d b a] by auto
      qed
      then have "sorted_wrt (\<lambda>a b. c b a \<le> 0) ?front"
        by (rule sorted_wrt_mono_rel [rotated]) simp
      then have s: "sorted_wrt (\<lambda>a b. c a b \<le> 0) (rev ?front)"
        by (simp add: sorted_wrt_rev)
      have "filter (\<lambda>x. c k x = 0) (rev ?front) = filter (\<lambda>x. c k x = 0) ?front"
        if k: "k \<in> set xs" for k
      proof (rule rev_filter_distinct)
        show "sorted_wrt (\<lambda>a b. \<not> (c k a = 0 \<and> c k b = 0)) ?front"
          using strict
        proof (rule sorted_wrt_mono_rel [rotated])
          show "\<not> (c k a = 0 \<and> c k b = 0)"
            if "a \<in> set ?front" "b \<in> set ?front" "c b a < 0" for a b
          proof
            assume e: "c k a = 0 \<and> c k b = 0"
            from that sub have a: "a \<in> set xs" and b: "b \<in> set xs" by auto
            from e have "c b k = 0" by (simp add: consistent_sym [OF cons k b])
            with e have "c b a = 0" by (simp add: consistent_eq_trans [OF cons b k a])
            with that(3) show False by simp
          qed
        qed
      qed
      with True run whole s show ?thesis by simp
    qed
  qed
qed

lemma v8_sort_contract: "sortContract v8_sort"
  unfolding sortContract_def
proof (intro allI conjI impI ballI)
  fix c :: "'a \<Rightarrow> 'a \<Rightarrow> int" and xs :: "'a list"
  show "mset (v8_sort c xs) = mset xs"
    by (rule mset_v8_sort)
next
  fix c :: "'a \<Rightarrow> 'a \<Rightarrow> int" and xs :: "'a list"
  assume cons: "consistentOn c (set xs)"
  obtain run rest where r: "countAndMakeRun c xs = (run, rest)"
    by (cases "countAndMakeRun c xs")
  from mset_countAndMakeRun [OF r] have "set run \<union> set rest = set xs"
    by (metis set_mset_mset set_mset_union)
  then have sub: "set run \<subseteq> set xs" "set rest \<subseteq> set xs" by auto
  from countAndMakeRun_run [OF cons r] have "sorted_wrt (\<lambda>a b. c a b \<le> 0) run" by simp
  with fold_binaryInsert_sorted [OF cons sub]
  show "sorted_wrt (\<lambda>a b. c a b \<le> 0) (v8_sort c xs)"
    by (simp add: v8_sort_def r)
next
  fix c :: "'a \<Rightarrow> 'a \<Rightarrow> int" and xs :: "'a list" and k
  assume cons: "consistentOn c (set xs)" and k: "k \<in> set xs"
  obtain run rest where r: "countAndMakeRun c xs = (run, rest)"
    by (cases "countAndMakeRun c xs")
  from mset_countAndMakeRun [OF r] have "set run \<union> set rest = set xs"
    by (metis set_mset_mset set_mset_union)
  then have sub: "set run \<subseteq> set xs" "set rest \<subseteq> set xs" by auto
  from countAndMakeRun_run [OF cons r]
  have srt: "sorted_wrt (\<lambda>a b. c a b \<le> 0) run"
    and whole: "filter (\<lambda>x. c k x = 0) run @ filter (\<lambda>x. c k x = 0) rest
                  = filter (\<lambda>x. c k x = 0) xs"
    using k by simp_all
  from fold_binaryInsert_filter [OF cons k sub srt] whole
  show "filter (\<lambda>x. c k x = 0) (v8_sort c xs) = filter (\<lambda>x. c k x = 0) xs"
    by (simp add: v8_sort_def r)
qed


section \<open>Facts about the ranking comparator\<close>

lemma rank_le_iff:
  assumes "timestamp parse x \<noteq> None" and "timestamp parse y \<noteq> None"
  shows "sortCompare (rankCompare parse) x y \<le> 0 \<longleftrightarrow> \<not> outranks parse y x"
proof -
  from assms obtain tx ty where "timestamp parse x = Some tx" "timestamp parse y = Some ty"
    by auto
  then show ?thesis
    by (auto simp: sortCompare_def rankCompare_def outranks_def Let_def)
qed

lemma rank_zero_iff:
  assumes "timestamp parse x \<noteq> None" and "timestamp parse y \<noteq> None"
  shows "sortCompare (rankCompare parse) x y = 0 \<longleftrightarrow> rankKey parse x = rankKey parse y"
proof -
  from assms obtain tx ty where "timestamp parse x = Some tx" "timestamp parse y = Some ty"
    by auto
  then show ?thesis
    by (auto simp: sortCompare_def rankCompare_def rankKey_def Let_def)
qed

lemma rank_value:
  assumes "timestamp parse x = Some tx" and "timestamp parse y = Some ty"
  shows "sortCompare (rankCompare parse) x y
     = (if getQualityScore (qualityLevel x) \<noteq> getQualityScore (qualityLevel y)
        then int (getQualityScore (qualityLevel x)) - int (getQualityScore (qualityLevel y))
        else ty - tx)"
  using assms by (simp add: sortCompare_def rankCompare_def Let_def)

lemma rank_consistent:
  "consistentOn (sortCompare (rankCompare parse)) {d. timestamp parse d \<noteq> None}"
  unfolding consistentOn_def
proof (intro ballI)
  fix a b d :: "'a descriptor_scheme"
  assume "a \<in> {d. timestamp parse d \<noteq> None}" "b \<in> {d. timestamp parse d \<noteq> None}"
    "d \<in> {d. timestamp parse d \<noteq> None}"
  then obtain ta tb td where
    t: "timestamp parse a = Some ta" "timestamp parse b = Some tb" "timestamp parse d = Some td"
    by auto
  let ?c = "sortCompare (rankCompare parse)"
  note v = rank_value [OF t(1) t(1)] rank_value [OF t(1) t(2)] rank_value [OF t(2) t(1)]
    rank_value [OF t(2) t(3)] rank_value [OF t(1) t(3)]
  have 1: "?c a a = 0" by (simp add: v)
  have 2: "?c a b = 0 \<longrightarrow> ?c b a = 0" by (simp add: v split: if_splits)
  have 3: "?c a b = 0 \<and> ?c b d = 0 \<longrightarrow> ?c a d = 0" by (simp add: v split: if_splits)
  have 4: "?c a b < 0 \<and> ?c b d < 0 \<longrightarrow> ?c a d < 0" by (auto simp: v split: if_splits)
  have 5: "0 < ?c a b \<and> 0 < ?c b d \<longrightarrow> 0 < ?c a d" by (auto simp: v split: if_splits)
  from 1 2 3 4 5 show "?c a a = 0
        \<and> (?c a b = 0 \<longrightarrow> ?c b a = 0)
        \<and> (?c a b = 0 \<and> ?c b d = 0 \<longrightarrow> ?c a d = 0)
        \<and> (?c a b < 0 \<and> ?c b d < 0 \<longrightarrow> ?c a d < 0)
        \<and> (0 < ?c a b \<and> 0 < ?c b d \<longrightarrow> 0 < ?c a d)"
    by blast
qed

lemma timestamp_absent:
  assumes "\<not> truthy (publicationDate d)" and "\<not> truthy (date d)"
  shows "timestamp parse d = Some 0"
  using assms
  by (cases "date d")
     (auto simp: timestamp_def resolveDate_def js_or_def getTime_def timeClip_def)

lemma datesValid_iff: "datesValid parse ds \<longleftrightarrow> set ds \<subseteq> {d. timestamp parse d \<noteq> None}"
  by (auto simp: datesValid_def list_all_iff)

lemma datesValid_consistent:
  "datesValid parse ds \<Longrightarrow> consistentOn (sortCompare (rankCompare parse)) (set ds)"
  using rank_consistent [of parse] by (rule consistent_subset) (simp add: datesValid_iff)

lemma outranks_irrefl: "\<not> outranks parse d d"
  by (auto simp: outranks_def split: option.splits)

lemma outranks_asym: "outranks parse a b \<Longrightarrow> \<not> outranks parse b a"
  by (auto simp: outranks_def split: option.splits)

text \<open>The ranking on any engine, for dates that are absent or parseable.\<close>

lemma sorted_rankResults:
  assumes con: "sortContract srt" and valid: "datesValid parse results"
  shows "sorted_wrt (\<lambda>a b. \<not> outranks parse b a) (rankResults srt parse results)"
proof -
  let ?c = "sortCompare (rankCompare parse)"
  from valid have sub: "set results \<subseteq> {d. timestamp parse d \<noteq> None}"
    by (simp add: datesValid_iff)
  have "sorted_wrt (\<lambda>a b. ?c a b \<le> 0) (srt ?c results)"
    using con datesValid_consistent [OF valid] by (rule contract_sorted)
  moreover have "?c a b \<le> 0 \<longleftrightarrow> \<not> outranks parse b a"
    if "a \<in> set (srt ?c results)" "b \<in> set (srt ?c results)" for a b
    using that sub rank_le_iff [of parse a b] by (auto simp: contract_set [OF con])
  ultimately show ?thesis
    unfolding rankResults_def
    by (auto simp: sorted_wrt_iff_nth_less)
qed

lemma best_rankResults:
  assumes con: "sortContract srt" and ne: "results \<noteq> []" and valid: "datesValid parse results"
  shows "\<exists>best rest us vs. rankResults srt parse results = best # rest \<and> results = us @ best # vs
            \<and> (\<forall>u\<in>set us. outranks parse best u) \<and> (\<forall>d\<in>set results. \<not> outranks parse d best)"
proof -
  let ?c = "sortCompare (rankCompare parse)"
  from valid have sub: "set results \<subseteq> {d. timestamp parse d \<noteq> None}"
    by (simp add: datesValid_iff)
  from contract_head [OF con datesValid_consistent [OF valid] ne]
  obtain b rest us vs where
    s: "srt ?c results = b # rest" and split: "results = us @ b # vs"
    and before: "\<forall>u\<in>set us. ?c b u \<noteq> 0" and least: "\<forall>d\<in>set results. ?c b d \<le> 0"
    by blast
  from sub split have vb: "timestamp parse b \<noteq> None"
    and vall: "\<forall>d\<in>set results. timestamp parse d \<noteq> None" by auto
  have top: "\<forall>d\<in>set results. \<not> outranks parse d b"
    using least vall vb rank_le_iff [of parse b] by blast
  have "\<forall>u\<in>set us. outranks parse b u"
  proof
    fix u
    assume u: "u \<in> set us"
    with split have ur: "u \<in> set results" by simp
    with vall have vu: "timestamp parse u \<noteq> None" by simp
    from u before least ur have less: "?c b u < 0" by fastforce
    have "0 < ?c u b"
    proof (rule consistent_flip [OF rank_consistent [of parse]])
      show "b \<in> {d. timestamp parse d \<noteq> None}" using vb by simp
      show "u \<in> {d. timestamp parse d \<noteq> None}" using vu by simp
      show "?c b u < 0" by (rule less)
    qed
    then have "\<not> ?c u b \<le> 0" by simp
    with vu vb show "outranks parse b u"
      using rank_le_iff [of parse u b] by simp
  qed
  with s split top
  have "rankResults srt parse results = b # rest \<and> results = us @ b # vs
            \<and> (\<forall>u\<in>set us. outranks parse b u) \<and> (\<forall>d\<in>set results. \<not> outranks parse d b)"
    by (simp add: rankResults_def)
  then show ?thesis by (intro exI)
qed

lemma stable_rankResults:
  assumes con: "sortContract srt" and valid: "datesValid parse results"
  shows "filter (\<lambda>d. rankKey parse d = k) (rankResults srt parse results)
     = filter (\<lambda>d. rankKey parse d = k) results"
proof (cases "\<exists>e\<in>set results. rankKey parse e = k")
  case False
  then have "filter (\<lambda>d. rankKey parse d = k) results = []"
    by (simp add: filter_empty_conv)
  moreover from False have "filter (\<lambda>d. rankKey parse d = k) (rankResults srt parse results) = []"
    by (simp add: filter_empty_conv rankResults_def contract_set [OF con])
  ultimately show ?thesis by simp
next
  case True
  then obtain e where e: "e \<in> set results" and ke: "rankKey parse e = k" by blast
  let ?c = "sortCompare (rankCompare parse)"
  from valid have vall: "\<forall>d\<in>set results. timestamp parse d \<noteq> None"
    by (auto simp: datesValid_iff)
  have same: "(?c e d = 0) = (rankKey parse d = k)" if "d \<in> set results" for d
    using that e vall ke rank_zero_iff [of parse e d] by auto
  have "filter (\<lambda>d. rankKey parse d = k) (srt ?c results) = filter (\<lambda>d. ?c e d = 0) (srt ?c results)"
    by (rule filter_cong) (simp_all add: same contract_set [OF con])
  also have "\<dots> = filter (\<lambda>d. ?c e d = 0) results"
    using con datesValid_consistent [OF valid] e by (rule contract_stable)
  also have "\<dots> = filter (\<lambda>d. rankKey parse d = k) results"
    by (rule filter_cong) (simp_all add: same)
  finally show ?thesis by (simp add: rankResults_def)
qed


lemmas date_eval =
  isoDateParse_def digitVal_def daysInMonth_def isLeapYear_def dayFromYear_def dayWithinYear_def

lemma isoDateParse_examples:
  "isoDateParse ''2019-01-01'' = Some 1546300800000"
  "isoDateParse ''2020-01-01'' = Some 1577836800000"
  "isoDateParse ''2021-01-01'' = Some 1609459200000"
  "isoDateParse ''2020-13-45'' = None"
  by (simp_all add: date_eval)

lemmas rank_eval =
  rankResults_def sortCompare_def rankCompare_def timestamp_def resolveDate_def getTime_def
  timeClip_def js_or_def handleSearchComplete_def resultsOf_def datesValid_def outranks_def
  rankKey_def getQualityScore_cascade string_eval isoDateParse_examples

lemmas v8_eval = v8_sort_def countAndMakeRun_def binaryInsert_def binarySearch.simps

text \<open>
  The example of the specification, on any engine: of the three descriptors only
  {QL0, 2021-01-01} is outranked by none.
\<close>

lemma example_best:
  assumes con: "sortContract srt"
  shows "handleSearchComplete srt isoDateParse True
        (searchResults [dsc ''QL2'' ''2020-01-01'', dsc ''QL0'' ''2019-01-01'', dsc ''QL0'' ''2021-01-01''])
      = Some (dsc ''QL0'' ''2021-01-01'')"
proof -
  let ?rs = "[dsc ''QL2'' ''2020-01-01'', dsc ''QL0'' ''2019-01-01'', dsc ''QL0'' ''2021-01-01'']"
  have ne: "?rs \<noteq> []" by simp
  have valid: "datesValid isoDateParse ?rs" by (simp add: rank_eval)
  from best_rankResults [OF con ne valid] obtain best rest where
    r: "rankResults srt isoDateParse ?rs = best # rest"
    and top: "\<forall>d\<in>set ?rs. \<not> outranks isoDateParse d best"
    by blast
  from r have "best \<in> set (rankResults srt isoDateParse ?rs)" by simp
  then have "best \<in> set ?rs" by (simp add: rankResults_def contract_set [OF con])
  then consider "best = dsc ''QL2'' ''2020-01-01''" | "best = dsc ''QL0'' ''2019-01-01''"
    | "best = dsc ''QL0'' ''2021-01-01''" by auto
  then have "best = dsc ''QL0'' ''2021-01-01''"
  proof cases
    case 1
    have "outranks isoDateParse (dsc ''QL0'' ''2019-01-01'') (dsc ''QL2'' ''2020-01-01'')"
      by (simp add: rank_eval)
    with top 1 show ?thesis by simp
  next
    case 2
    have "outranks isoDateParse (dsc ''QL0'' ''2021-01-01'') (dsc ''QL0'' ''2019-01-01'')"
      by (simp add: rank_eval)
    with top 2 show ?thesis by simp
  next
    case 3
    then show ?thesis .
  qed
  with r show ?thesis
    by (simp add: handleSearchComplete_def resultsOf_def)
qed

section \<open>Claims about the ranking\<close>

text \<open>
  C1, as amended. On every engine, for every non-empty sequence of descriptors whose
  dates are each absent or parseable, the handler loads the single highest-ranked element
  under the order ``lower quality score first, among equal scores later timestamp first'':
  no element outranks it, and it outranks every element that stands before it in the
  input. For the empty sequence nothing is selected and no load is triggered. For the
  input [{QL2, 2020-01-01}, {QL0, 2019-01-01}, {QL0, 2021-01-01}] the selected best is
  {QL0, 2021-01-01}.
\<close>

theorem handleSearchComplete_selects_best:
  "(sortContract srt \<and> resultsOf event \<noteq> [] \<and> datesValid parse (resultsOf event) \<longrightarrow>
      (\<exists>best us vs. handleSearchComplete srt parse True event = Some best
          \<and> resultsOf event = us @ best # vs
          \<and> (\<forall>u\<in>set us. outranks parse best u)
          \<and> (\<forall>d\<in>set (resultsOf event). \<not> outranks parse d best)))
   \<and> (resultsOf event = [] \<longrightarrow> handleSearchComplete srt parse canLoad event = None)
   \<and> (sortContract esrt \<longrightarrow>
        handleSearchComplete esrt isoDateParse True
          (searchResults [dsc ''QL2'' ''2020-01-01'', dsc ''QL0'' ''2019-01-01'', dsc ''QL0'' ''2021-01-01''])
        = Some (dsc ''QL0'' ''2021-01-01''))"
proof (intro conjI impI)
  assume "sortContract srt \<and> resultsOf event \<noteq> [] \<and> datesValid parse (resultsOf event)"
  then have con: "sortContract srt" and ne: "resultsOf event \<noteq> []"
    and valid: "datesValid parse (resultsOf event)"
    by simp_all
  from best_rankResults [OF con ne valid] obtain best rest us vs where
    r: "rankResults srt parse (resultsOf event) = best # rest"
    and split: "resultsOf event = us @ best # vs"
    and before: "\<forall>u\<in>set us. outranks parse best u"
    and top: "\<forall>d\<in>set (resultsOf event). \<not> outranks parse d best"
    by blast
  from ne r have load: "handleSearchComplete srt parse True event = Some best"
    by (simp add: handleSearchComplete_def)
  from load split before top
  have "handleSearchComplete srt parse True event = Some best
          \<and> resultsOf event = us @ best # vs
          \<and> (\<forall>u\<in>set us. outranks parse best u)
          \<and> (\<forall>d\<in>set (resultsOf event). \<not> outranks parse d best)"
    by simp
  then show "\<exists>best us vs. handleSearchComplete srt parse True event = Some best
          \<and> resultsOf event = us @ best # vs
          \<and> (\<forall>u\<in>set us. outranks parse best u)
          \<and> (\<forall>d\<in>set (resultsOf event). \<not> outranks parse d best)"
    by (intro exI)
next
  assume "resultsOf event = []"
  then show "handleSearchComplete srt parse canLoad event = None"
    by (simp add: handleSearchComplete_def)
next
  assume "sortContract esrt"
  then show "handleSearchComplete esrt isoDateParse True
        (searchResults [dsc ''QL2'' ''2020-01-01'', dsc ''QL0'' ''2019-01-01'', dsc ''QL0'' ''2021-01-01''])
      = Some (dsc ''QL0'' ''2021-01-01'')"
    by (rule example_best)
qed

text \<open>
  Witness for C1, on the insertion sort: the input [{QL1, 2020-01-01}, {QL0, 2019-01-01}]
  is non-empty with parseable dates, and the element loaded is one that no element
  outranks; the example of the specification loads {QL0, 2021-01-01}; the event with an
  empty result list loads nothing.
\<close>

theorem handleSearchComplete_selects_best_witness:
  "sortContract (array_sort :: descriptor engineSort)
   \<and> resultsOf (searchResults [dsc ''QL1'' ''2020-01-01'', dsc ''QL0'' ''2019-01-01'']) \<noteq> []
   \<and> datesValid isoDateParse
        (resultsOf (searchResults [dsc ''QL1'' ''2020-01-01'', dsc ''QL0'' ''2019-01-01'']))
   \<and> (\<exists>best us vs.
         handleSearchComplete array_sort isoDateParse True
           (searchResults [dsc ''QL1'' ''2020-01-01'', dsc ''QL0'' ''2019-01-01'']) = Some best
         \<and> [dsc ''QL1'' ''2020-01-01'', dsc ''QL0'' ''2019-01-01''] = us @ best # vs
         \<and> (\<forall>u\<in>set us. outranks isoDateParse best u)
         \<and> \<not> outranks isoDateParse (dsc ''QL1'' ''2020-01-01'') best
         \<and> \<not> outranks isoDateParse (dsc ''QL0'' ''2019-01-01'') best)
   \<and> handleSearchComplete array_sort isoDateParse True
        (searchResults [dsc ''QL2'' ''2020-01-01'', dsc ''QL0'' ''2019-01-01'', dsc ''QL0'' ''2021-01-01''])
      = Some (dsc ''QL0'' ''2021-01-01'')
   \<and> resultsOf (searchResults ([] :: descriptor list)) = []
   \<and> handleSearchComplete array_sort isoDateParse True (searchResults ([] :: descriptor list)) = None"
proof -
  let ?ev = "searchResults [dsc ''QL1'' ''2020-01-01'', dsc ''QL0'' ''2019-01-01'']"
  let ?none = "searchResults ([] :: descriptor list)"
  have con: "sortContract (array_sort :: descriptor engineSort)"
    by (rule array_sort_contract)
  have r: "resultsOf ?ev = [dsc ''QL1'' ''2020-01-01'', dsc ''QL0'' ''2019-01-01'']"
    by (simp add: resultsOf_def)
  have ne: "resultsOf ?ev \<noteq> []"
    by (simp add: resultsOf_def)
  have valid: "datesValid isoDateParse (resultsOf ?ev)"
    by (simp add: rank_eval)
  have e: "resultsOf ?none = []"
    by (simp add: resultsOf_def)
  note inst = handleSearchComplete_selects_best [of array_sort ?ev isoDateParse True array_sort]
  from con ne valid inst
  obtain best us vs where
    "handleSearchComplete array_sort isoDateParse True ?ev = Some best"
    "resultsOf ?ev = us @ best # vs"
    "\<forall>u\<in>set us. outranks isoDateParse best u"
    "\<forall>d\<in>set (resultsOf ?ev). \<not> outranks isoDateParse d best"
    by blast
  with r have "handleSearchComplete array_sort isoDateParse True ?ev = Some best
         \<and> [dsc ''QL1'' ''2020-01-01'', dsc ''QL0'' ''2019-01-01''] = us @ best # vs
         \<and> (\<forall>u\<in>set us. outranks isoDateParse best u)
         \<and> \<not> outranks isoDateParse (dsc ''QL1'' ''2020-01-01'') best
         \<and> \<not> outranks isoDateParse (dsc ''QL0'' ''2019-01-01'') best"
    by simp
  then have ex: "\<exists>best us vs.
         handleSearchComplete array_sort isoDateParse True ?ev = Some best
         \<and> [dsc ''QL1'' ''2020-01-01'', dsc ''QL0'' ''2019-01-01''] = us @ best # vs
         \<and> (\<forall>u\<in>set us. outranks isoDateParse best u)
         \<and> \<not> outranks isoDateParse (dsc ''QL1'' ''2020-01-01'') best
         \<and> \<not> outranks isoDateParse (dsc ''QL0'' ''2019-01-01'') best"
    by (intro exI)
  from con inst have x: "handleSearchComplete array_sort isoDateParse True
        (searchResults [dsc ''QL2'' ''2020-01-01'', dsc ''QL0'' ''2019-01-01'', dsc ''QL0'' ''2021-01-01''])
      = Some (dsc ''QL0'' ''2021-01-01'')"
    by blast
  from e handleSearchComplete_selects_best [of array_sort ?none isoDateParse True array_sort]
  have "handleSearchComplete array_sort isoDateParse True ?none = None"
    by blast
  with con ne valid ex x e show ?thesis by blast
qed

text \<open>
  Counterexample to C1 as stated: with an unparseable date in the sequence the element
  loaded is not the highest-ranked. For [{QL0, 2019-01-01}, {QL0, 2020-13-45},
  {QL0, 2021-01-01}] the comparator answers NaN against the middle element; the insertion
  sort and the sort of V8, which both keep the contract, leave the order as it is, and
  {QL0, 2019-01-01} is loaded, though {QL0, 2021-01-01} has the same score and a later
  timestamp.
\<close>

theorem handleSearchComplete_unparseable_counterexample:
  "sortContract (v8_sort :: descriptor engineSort)
   \<and> sortContract (array_sort :: descriptor engineSort)
   \<and> handleSearchComplete v8_sort isoDateParse True
      (searchResults [dsc ''QL0'' ''2019-01-01'', dsc ''QL0'' ''2020-13-45'', dsc ''QL0'' ''2021-01-01''])
     = Some (dsc ''QL0'' ''2019-01-01'')
   \<and> handleSearchComplete array_sort isoDateParse True
      (searchResults [dsc ''QL0'' ''2019-01-01'', dsc ''QL0'' ''2020-13-45'', dsc ''QL0'' ''2021-01-01''])
     = Some (dsc ''QL0'' ''2019-01-01'')
   \<and> outranks isoDateParse (dsc ''QL0'' ''2021-01-01'') (dsc ''QL0'' ''2019-01-01'')"
  by (simp add: v8_sort_contract array_sort_contract) (simp add: rank_eval v8_eval)

text \<open>
  C3, as amended. A descriptor whose publicationDate and fallback date are both absent
  (or empty) has the timestamp epoch zero. On every engine, in a sequence whose dates
  are each absent or parseable it is ranked after every peer of equal quality score with
  a later parseable date, and the output is sorted and a permutation of the input; on
  descriptors with such dates the comparator is consistent (a total preorder).
\<close>

theorem absent_date_ranks_as_epoch:
  "(\<not> truthy (publicationDate d) \<and> \<not> truthy (date d) \<longrightarrow> timestamp parse d = Some 0)
   \<and> (sortContract srt \<and> datesValid parse results
        \<and> \<not> truthy (publicationDate d) \<and> \<not> truthy (date d)
        \<and> d \<in> set results \<and> p \<in> set results
        \<and> getQualityScore (qualityLevel p) = getQualityScore (qualityLevel d)
        \<and> timestamp parse p = Some t \<and> 0 < t
      \<longrightarrow> (\<forall>i j. i < length (rankResults srt parse results)
                \<and> j < length (rankResults srt parse results)
                \<and> rankResults srt parse results ! i = d \<and> rankResults srt parse results ! j = p
              \<longrightarrow> j < i))
   \<and> (sortContract srt \<and> datesValid parse results
      \<longrightarrow> sorted_wrt (\<lambda>a b. \<not> outranks parse b a) (rankResults srt parse results)
          \<and> mset (rankResults srt parse results) = mset results)
   \<and> consistentOn (sortCompare (rankCompare parse)) {x. timestamp parse x \<noteq> None}"
proof (intro conjI impI allI)
  assume "\<not> truthy (publicationDate d) \<and> \<not> truthy (date d)"
  then show "timestamp parse d = Some 0"
    by (simp add: timestamp_absent)
next
  fix i j
  assume h: "sortContract srt \<and> datesValid parse results
        \<and> \<not> truthy (publicationDate d) \<and> \<not> truthy (date d)
        \<and> d \<in> set results \<and> p \<in> set results
        \<and> getQualityScore (qualityLevel p) = getQualityScore (qualityLevel d)
        \<and> timestamp parse p = Some t \<and> 0 < t"
    and ij: "i < length (rankResults srt parse results)
                \<and> j < length (rankResults srt parse results)
                \<and> rankResults srt parse results ! i = d \<and> rankResults srt parse results ! j = p"
  let ?r = "rankResults srt parse results"
  from h have td: "timestamp parse d = Some 0" by (simp add: timestamp_absent)
  with h have out: "outranks parse p d" by (simp add: outranks_def)
  from h have srt: "sorted_wrt (\<lambda>a b. \<not> outranks parse b a) ?r"
    by (simp add: sorted_rankResults)
  show "j < i"
  proof (rule ccontr)
    assume "\<not> j < i"
    moreover from td h have "d \<noteq> p" by auto
    with ij have "i \<noteq> j" by auto
    ultimately have "i < j" by simp
    with srt ij have "\<not> outranks parse (?r ! j) (?r ! i)"
      using sorted_wrt_nth_less [of "\<lambda>a b. \<not> outranks parse b a" ?r i j] by simp
    with ij out show False by simp
  qed
next
  assume "sortContract srt \<and> datesValid parse results"
  then show "sorted_wrt (\<lambda>a b. \<not> outranks parse b a) (rankResults srt parse results)"
    by (simp add: sorted_rankResults)
next
  assume "sortContract srt \<and> datesValid parse results"
  then show "mset (rankResults srt parse results) = mset results"
    by (simp add: rankResults_def contract_mset)
next
  show "consistentOn (sortCompare (rankCompare parse)) {x. timestamp parse x \<noteq> None}"
    by (rule rank_consistent)
qed


text \<open>
  Witness for C3, on the insertion sort: a descriptor with no publicationDate and an empty
  fallback date, next to a peer of the same score dated 2021-01-01: its timestamp is 0 and
  it is ranked after the peer.
\<close>

theorem absent_date_ranks_as_epoch_witness:
  "sortContract (array_sort :: descriptor engineSort)
   \<and> \<not> truthy (publicationDate \<lparr>qualityLevel = Some ''QL0'', publicationDate = None, date = Some ''''\<rparr>)
   \<and> \<not> truthy (date \<lparr>qualityLevel = Some ''QL0'', publicationDate = None, date = Some ''''\<rparr>)
   \<and> timestamp isoDateParse \<lparr>qualityLevel = Some ''QL0'', publicationDate = None, date = Some ''''\<rparr>
       = Some 0
   \<and> datesValid isoDateParse
        [\<lparr>qualityLevel = Some ''QL0'', publicationDate = None, date = Some ''''\<rparr>,
         dsc ''QL0'' ''2021-01-01'']
   \<and> timestamp isoDateParse (dsc ''QL0'' ''2021-01-01'') = Some 1609459200000
   \<and> sorted_wrt (\<lambda>a b. \<not> outranks isoDateParse b a)
        (rankResults array_sort isoDateParse
          [\<lparr>qualityLevel = Some ''QL0'', publicationDate = None, date = Some ''''\<rparr>,
           dsc ''QL0'' ''2021-01-01''])
   \<and> rankResults array_sort isoDateParse
        [\<lparr>qualityLevel = Some ''QL0'', publicationDate = None, date = Some ''''\<rparr>,
         dsc ''QL0'' ''2021-01-01'']
       = [dsc ''QL0'' ''2021-01-01'',
          \<lparr>qualityLevel = Some ''QL0'', publicationDate = None, date = Some ''''\<rparr>]"
proof -
  let ?d = "\<lparr>qualityLevel = Some ''QL0'', publicationDate = None, date = Some ''''\<rparr>"
  let ?p = "dsc ''QL0'' ''2021-01-01''"
  have con: "sortContract (array_sort :: descriptor engineSort)"
    by (rule array_sort_contract)
  have a: "\<not> truthy (publicationDate ?d)" "\<not> truthy (date ?d)"
    by simp_all
  have tp: "timestamp isoDateParse ?p = Some 1609459200000"
    by (simp add: rank_eval)
  note inst = absent_date_ranks_as_epoch [of ?d isoDateParse array_sort "[?d, ?p]" ?p 1609459200000]
  from a inst have td: "timestamp isoDateParse ?d = Some 0"
    by blast
  with tp have valid: "datesValid isoDateParse [?d, ?p]"
    by (simp add: datesValid_def)
  with con inst
  have "sorted_wrt (\<lambda>a b. \<not> outranks isoDateParse b a) (rankResults array_sort isoDateParse [?d, ?p])"
    by blast
  moreover have "rankResults array_sort isoDateParse [?d, ?p] = [?p, ?d]"
    by (simp add: rank_eval)
  ultimately show ?thesis
    using con a tp td valid by simp
qed

text \<open>
  Counterexample to C3 as stated: the date \<open>2020-13-45\<close> is unparseable, its time value is
  NaN and not 0, and the comparator answers NaN, which the sort reads as a tie. So the
  descriptor stays in front of an equal-quality peer dated 2021-01-01 (on the insertion
  sort and on V8; the two descriptors tie in both directions, so a stable sort must keep
  them), and the comparator is not transitive: {QL0, 2019-01-01} is not after
  {QL0, 2020-13-45}, which is not after {QL0, 2021-01-01}, yet {QL0, 2019-01-01} is after
  {QL0, 2021-01-01}.
\<close>

theorem unparseable_date_counterexample:
  "timestamp isoDateParse (dsc ''QL0'' ''2020-13-45'') = None
   \<and> timestamp isoDateParse (dsc ''QL0'' ''2021-01-01'') = Some 1609459200000
   \<and> rankCompare isoDateParse (dsc ''QL0'' ''2020-13-45'') (dsc ''QL0'' ''2021-01-01'') = None
   \<and> rankCompare isoDateParse (dsc ''QL0'' ''2021-01-01'') (dsc ''QL0'' ''2020-13-45'') = None
   \<and> rankResults array_sort isoDateParse [dsc ''QL0'' ''2020-13-45'', dsc ''QL0'' ''2021-01-01'']
       = [dsc ''QL0'' ''2020-13-45'', dsc ''QL0'' ''2021-01-01'']
   \<and> rankResults v8_sort isoDateParse [dsc ''QL0'' ''2020-13-45'', dsc ''QL0'' ''2021-01-01'']
       = [dsc ''QL0'' ''2020-13-45'', dsc ''QL0'' ''2021-01-01'']
   \<and> sortCompare (rankCompare isoDateParse) (dsc ''QL0'' ''2019-01-01'') (dsc ''QL0'' ''2020-13-45'') \<le> 0
   \<and> sortCompare (rankCompare isoDateParse) (dsc ''QL0'' ''2020-13-45'') (dsc ''QL0'' ''2021-01-01'') \<le> 0
   \<and> \<not> sortCompare (rankCompare isoDateParse) (dsc ''QL0'' ''2019-01-01'') (dsc ''QL0'' ''2021-01-01'') \<le> 0"
  by (simp add: rank_eval v8_eval)

text \<open>
  C4, as amended. On every engine, for every input sequence of descriptors whose dates
  are each absent or parseable, the ranking sort is stable: for every key (quality score
  and resolved timestamp), the descriptors with that key stand in the output in the order
  they have in the input. The output is a permutation of the input.
\<close>

theorem rankResults_stable:
  "sortContract srt \<and> datesValid parse results \<longrightarrow>
     filter (\<lambda>d. rankKey parse d = k) (rankResults srt parse results)
       = filter (\<lambda>d. rankKey parse d = k) results
     \<and> mset (rankResults srt parse results) = mset results"
proof (intro impI conjI)
  assume h: "sortContract srt \<and> datesValid parse results"
  then show "filter (\<lambda>d. rankKey parse d = k) (rankResults srt parse results)
       = filter (\<lambda>d. rankKey parse d = k) results"
    by (simp add: stable_rankResults)
  from h show "mset (rankResults srt parse results) = mset results"
    by (simp add: rankResults_def contract_mset)
qed

text \<open>
  Witness for C4, on the insertion sort: two provider entries with the same label and
  date, told apart by their titles, keep their order behind a better entry that stood
  between them.
\<close>

theorem rankResults_stable_witness:
  "sortContract (array_sort :: titledDescriptor engineSort)
   \<and> datesValid isoDateParse
       [titled ''QL1'' ''2020-01-01'' ''first'', titled ''QL0'' ''2019-01-01'' ''other'',
        titled ''QL1'' ''2020-01-01'' ''second'']
   \<and> rankResults array_sort isoDateParse
      [titled ''QL1'' ''2020-01-01'' ''first'', titled ''QL0'' ''2019-01-01'' ''other'',
       titled ''QL1'' ''2020-01-01'' ''second'']
     = [titled ''QL0'' ''2019-01-01'' ''other'', titled ''QL1'' ''2020-01-01'' ''first'',
        titled ''QL1'' ''2020-01-01'' ''second'']
   \<and> filter (\<lambda>d. rankKey isoDateParse d = (1, Some 1577836800000))
        (rankResults array_sort isoDateParse
          [titled ''QL1'' ''2020-01-01'' ''first'', titled ''QL0'' ''2019-01-01'' ''other'',
           titled ''QL1'' ''2020-01-01'' ''second''])
     = [titled ''QL1'' ''2020-01-01'' ''first'', titled ''QL1'' ''2020-01-01'' ''second'']"
proof -
  let ?in = "[titled ''QL1'' ''2020-01-01'' ''first'', titled ''QL0'' ''2019-01-01'' ''other'',
       titled ''QL1'' ''2020-01-01'' ''second'']"
  have con: "sortContract (array_sort :: titledDescriptor engineSort)"
    by (rule array_sort_contract)
  have valid: "datesValid isoDateParse ?in"
    by (simp add: rank_eval)
  have "filter (\<lambda>d. rankKey isoDateParse d = (1, Some 1577836800000)) ?in
      = [titled ''QL1'' ''2020-01-01'' ''first'', titled ''QL1'' ''2020-01-01'' ''second'']"
    by (simp add: rank_eval)
  with con valid rankResults_stable [of array_sort isoDateParse ?in "(1, Some 1577836800000)"]
  have "filter (\<lambda>d. rankKey isoDateParse d = (1, Some 1577836800000))
          (rankResults array_sort isoDateParse ?in)
      = [titled ''QL1'' ''2020-01-01'' ''first'', titled ''QL1'' ''2020-01-01'' ''second'']"
    by simp
  moreover have "rankResults array_sort isoDateParse ?in
     = [titled ''QL0'' ''2019-01-01'' ''other'', titled ''QL1'' ''2020-01-01'' ''first'',
        titled ''QL1'' ''2020-01-01'' ''second'']"
    by (simp add: rank_eval)
  ultimately show ?thesis using con valid by simp
qed

text \<open>
  Counterexample to C4 as stated: with unparseable dates in the sequence the comparator is
  inconsistent and the order is the engine's. The sort of V8 keeps the contract, and on
  it the two entries dated 2020-01-01, \<open>a\<close> before \<open>b\<close> in the input, come out \<open>b\<close> before
  \<open>a\<close>: the binary search puts \<open>b\<close> in front of the older entry \<open>m\<close> and never compares
  it with \<open>a\<close>.
\<close>

theorem rankResults_unstable_counterexample:
  "sortContract (v8_sort :: titledDescriptor engineSort)
   \<and> rankResults v8_sort isoDateParse
     [titled ''QL0'' ''2020-13-45'' ''x0'', titled ''QL0'' ''2020-13-45'' ''x1'',
      titled ''QL0'' ''2019-01-01'' ''m'', titled ''QL0'' ''2020-13-45'' ''x2'',
      titled ''QL0'' ''2020-01-01'' ''a'', titled ''QL0'' ''2021-01-01'' ''c'',
      titled ''QL0'' ''2020-01-01'' ''b'']
   = [titled ''QL0'' ''2020-13-45'' ''x0'', titled ''QL0'' ''2020-13-45'' ''x1'',
      titled ''QL0'' ''2021-01-01'' ''c'', titled ''QL0'' ''2020-01-01'' ''b'',
      titled ''QL0'' ''2019-01-01'' ''m'', titled ''QL0'' ''2020-13-45'' ''x2'',
      titled ''QL0'' ''2020-01-01'' ''a'']
   \<and> rankKey isoDateParse (titled ''QL0'' ''2020-01-01'' ''a'')
       = rankKey isoDateParse (titled ''QL0'' ''2020-01-01'' ''b'')"
  by (simp add: v8_sort_contract) (simp add: rank_eval v8_eval)


section \<open>Facts about the layer walks\<close>

text \<open>
  A walk whose step rewrites the layer of its id by an idempotent function \<open>f\<close>, and
  leaves an absent id alone, rewrites exactly the layers of the ids walked.
\<close>

lemma fold_layers:
  assumes step: "\<And>layerId m. g layerId m = (\<lambda>k. if k = layerId then map_option f (m k) else m k)"
    and idem: "\<And>l. f (f l) = f l"
  shows "fold g ids m = (\<lambda>k. if k \<in> set ids then map_option f (m k) else m k)"
proof (induction ids arbitrary: m)
  case Nil
  show ?case by simp
next
  case (Cons x xs)
  have "fold g (x # xs) m = fold g xs (g x m)" by simp
  also have "\<dots> = (\<lambda>k. if k \<in> set xs then map_option f (g x m k) else g x m k)"
    by (rule Cons.IH)
  also have "\<dots> = (\<lambda>k. if k \<in> set (x # xs) then map_option f (m k) else m k)"
  proof
    fix k
    have "map_option f (map_option f v) = map_option f v" for v
      by (cases v) (simp_all add: idem)
    then show "(if k \<in> set xs then map_option f (g x m k) else g x m k)
        = (if k \<in> set (x # xs) then map_option f (m k) else m k)"
      by (simp add: step)
  qed
  finally show ?case .
qed

lemma fold_skip:
  assumes "\<And>layerId m. g layerId m = m"
  shows "fold g ids m = m"
  by (induction ids) (simp_all add: assms)

lemmas layer_step = fun_eq_iff getLayer_def setPaintProperty_def setFilter_def

lemma applySeaLevelFilter_layers:
  "applySeaLevelFilter m ids t
     = (\<lambda>k. if k \<in> set ids
            then map_option (\<lambda>l. l\<lparr>layerFilter := Some (Arr [Str ''>='', Arr [Str ''get'', Str ''Z''], Num t])\<rparr>) (m k)
            else m k)"
  unfolding applySeaLevelFilter_def
  by (rule fold_layers) (auto simp: layer_step)

text \<open>The walk of \<^verbatim>\<open>applyColorScheme\<close>, scheme by scheme.\<close>

lemma applyColorScheme_elevation:
  "applyColorScheme m ids ''elevation''
     = (\<lambda>k. if k \<in> set ids
            then map_option (\<lambda>l. l\<lparr>paint := (paint l)(''point-color'' \<mapsto>
              Arr [Str ''interpolate'', Arr [Str ''linear''], Arr [Str ''get'', Str ''Z''],
                   Num 0, Str ''#0d47a1'', Num 1, Str ''#1976d2'', Num 2.5, Str ''#26c6da'',
                   Num 3.5, Str ''#fdd835'', Num 5, Str ''#ef5350''])\<rparr>) (m k)
            else m k)"
  unfolding applyColorScheme_def
  by (rule fold_layers) (auto simp: layer_step COLOR_RAMPS_elevation_ramp_def)

lemma applyColorScheme_intensity:
  "applyColorScheme m ids ''intensity''
     = (\<lambda>k. if k \<in> set ids
            then map_option (\<lambda>l. l\<lparr>paint := (paint l)(''point-color'' \<mapsto>
              Arr [Str ''interpolate'', Arr [Str ''linear''], Arr [Str ''get'', Str ''Intensity''],
                   Num 0, Str ''#212121'', Num 255, Str ''#f5f5f5''])\<rparr>) (m k)
            else m k)"
  unfolding applyColorScheme_def
  by (rule fold_layers) (auto simp: layer_step)

lemma applyColorScheme_classification:
  "applyColorScheme m ids ''classification''
     = (\<lambda>k. if k \<in> set ids
            then map_option (\<lambda>l. l\<lparr>paint := (paint l)(''point-color'' \<mapsto>
              Arr [Str ''match'', Arr [Str ''get'', Str ''Classification''],
                   Num 2, Str ''#4caf50'', Num 7, Str ''#1976d2'', Num 9, Str ''#ffb300'',
                   Num 10, Str ''#ef5350'', Str ''#9e9e9e''])\<rparr>) (m k)
            else m k)"
  unfolding applyColorScheme_def
  by (rule fold_layers) (auto simp: layer_step)

lemma applyColorScheme_rgb:
  "applyColorScheme m ids ''rgb''
     = (\<lambda>k. if k \<in> set ids
            then map_option (\<lambda>l. l\<lparr>paint := (paint l)(''point-color'' \<mapsto>
              Arr [Str ''rgb'', Arr [Str ''get'', Str ''Red''], Arr [Str ''get'', Str ''Green''],
                   Arr [Str ''get'', Str ''Blue'']])\<rparr>) (m k)
            else m k)"
  unfolding applyColorScheme_def
  by (rule fold_layers) (auto simp: layer_step)

lemma applyColorScheme_unrecognized:
  assumes "scheme \<notin> recognizedSchemes"
  shows "applyColorScheme m ids scheme = m"
  unfolding applyColorScheme_def
  by (rule fold_skip) (use assms in \<open>simp add: recognizedSchemes_def\<close>)

text \<open>
  Every scheme either sets one fixed expression on the layers walked, or does nothing.
\<close>

lemma applyColorScheme_shape:
  "(scheme \<in> recognizedSchemes \<and>
      (\<exists>e. \<forall>m. applyColorScheme m ids scheme
            = (\<lambda>k. if k \<in> set ids
                   then map_option (\<lambda>l. l\<lparr>paint := (paint l)(''point-color'' \<mapsto> e)\<rparr>) (m k)
                   else m k)))
   \<or> (scheme \<notin> recognizedSchemes \<and> (\<forall>m. applyColorScheme m ids scheme = m))"
proof (cases "scheme \<in> recognizedSchemes")
  case False
  then show ?thesis by (simp add: applyColorScheme_unrecognized)
next
  case True
  then consider "scheme = ''elevation''" | "scheme = ''intensity''"
    | "scheme = ''classification''" | "scheme = ''rgb''"
    by (auto simp: recognizedSchemes_def)
  then have "\<exists>e. \<forall>m. applyColorScheme m ids scheme
            = (\<lambda>k. if k \<in> set ids
                   then map_option (\<lambda>l. l\<lparr>paint := (paint l)(''point-color'' \<mapsto> e)\<rparr>) (m k)
                   else m k)"
  proof cases
    case 1
    show ?thesis unfolding 1 by (rule exI, rule allI, rule applyColorScheme_elevation)
  next
    case 2
    show ?thesis unfolding 2 by (rule exI, rule allI, rule applyColorScheme_intensity)
  next
    case 3
    show ?thesis unfolding 3 by (rule exI, rule allI, rule applyColorScheme_classification)
  next
    case 4
    show ?thesis unfolding 4 by (rule exI, rule allI, rule applyColorScheme_rgb)
  qed
  with True show ?thesis by simp
qed

lemma repaint_twice:
  "(\<lambda>k. if k \<in> set ids
        then map_option (\<lambda>l. l\<lparr>paint := (paint l)(name \<mapsto> b)\<rparr>)
               ((\<lambda>k. if k \<in> set ids
                      then map_option (\<lambda>l. l\<lparr>paint := (paint l)(name \<mapsto> a)\<rparr>) (m k)
                      else m k) k)
        else (\<lambda>k. if k \<in> set ids
                   then map_option (\<lambda>l. l\<lparr>paint := (paint l)(name \<mapsto> a)\<rparr>) (m k)
                   else m k) k)
   = (\<lambda>k. if k \<in> set ids then map_option (\<lambda>l. l\<lparr>paint := (paint l)(name \<mapsto> b)\<rparr>) (m k) else m k)"
  by (rule ext) (simp add: option.map_comp comp_def)

lemma applyColorScheme_last_wins:
  assumes "B \<in> recognizedSchemes"
  shows "applyColorScheme (applyColorScheme m ids A) ids B = applyColorScheme m ids B"
proof -
  from assms applyColorScheme_shape [of B ids] obtain b where
    B: "\<And>m. applyColorScheme m ids B
            = (\<lambda>k. if k \<in> set ids
                   then map_option (\<lambda>l. l\<lparr>paint := (paint l)(''point-color'' \<mapsto> b)\<rparr>) (m k)
                   else m k)"
    by auto
  show ?thesis
  proof (cases "A \<in> recognizedSchemes")
    case False
    then show ?thesis by (simp add: applyColorScheme_unrecognized)
  next
    case True
    with applyColorScheme_shape [of A ids] obtain a where
      A: "\<And>m. applyColorScheme m ids A
            = (\<lambda>k. if k \<in> set ids
                   then map_option (\<lambda>l. l\<lparr>paint := (paint l)(''point-color'' \<mapsto> a)\<rparr>) (m k)
                   else m k)"
      by auto
    show ?thesis
      unfolding B A by (rule repaint_twice)
  qed
qed

lemma applyColorScheme_idem:
  "applyColorScheme (applyColorScheme m ids s) ids s = applyColorScheme m ids s"
proof (cases "s \<in> recognizedSchemes")
  case True
  then show ?thesis by (rule applyColorScheme_last_wins)
next
  case False
  then show ?thesis by (simp add: applyColorScheme_unrecognized)
qed

lemma applySeaLevelFilter_last_wins:
  "applySeaLevelFilter (applySeaLevelFilter m ids t) ids u = applySeaLevelFilter m ids u"
  unfolding applySeaLevelFilter_layers
  by (rule ext) (simp add: option.map_comp comp_def)

lemma keepFeature_iff: "keepFeature f \<longleftrightarrow> specKeeps f"
proof (cases "js_or (getProp f ''state'') (getProp f ''STATE'')")
  case None
  then show ?thesis by (simp add: keepFeature_def specKeeps_def)
next
  case (Some s)
  then show ?thesis
    by (cases "s = []") (simp_all add: keepFeature_def specKeeps_def contains_ci_iff toUpperCase_def)
qed


section \<open>Claims about layer styling\<close>

text \<open>
  C5. For every threshold and every id of the current layer ids whose layer is present in
  the map, \<^verbatim>\<open>applySeaLevelFilter\<close> sets that layer's filter to exactly
  \<^verbatim>\<open>[">=", ["get", "Z"], threshold]\<close>, whatever filter the layer had before, and leaves
  the rest of the layer as it was. At threshold 1.5 the predicate accepts a point with
  Z = 1.5 and one with Z = 3.0 and rejects one with Z = 1.4.
\<close>

theorem applySeaLevelFilter_replaces_filter:
  "(layerId \<in> set layerIds \<and> mapInst layerId = Some l \<longrightarrow>
      applySeaLevelFilter mapInst layerIds threshold layerId
        = Some (l\<lparr>layerFilter := Some (Arr [Str ''>='', Arr [Str ''get'', Str ''Z''], Num threshold])\<rparr>))
   \<and> evalFilter (Arr [Str ''>='', Arr [Str ''get'', Str ''Z''], Num 1.5]) [''Z'' \<mapsto> 1.5] = Some True
   \<and> evalFilter (Arr [Str ''>='', Arr [Str ''get'', Str ''Z''], Num 1.5]) [''Z'' \<mapsto> 3.0] = Some True
   \<and> evalFilter (Arr [Str ''>='', Arr [Str ''get'', Str ''Z''], Num 1.5]) [''Z'' \<mapsto> 1.4] = Some False"
  by (simp add: applySeaLevelFilter_layers evalFilter_def)

text \<open>
  Witness for C5: a map with one layer that already has a filter; after the call at
  threshold 1.5 the layer has the new filter only.
\<close>

theorem applySeaLevelFilter_replaces_filter_witness:
  "''lidar-points'' \<in> set [''lidar-points'', ''lidar-gone'']
   \<and> oneLayerMap ''lidar-points''
       = Some \<lparr>paint = Map.empty, layerFilter = Some (Arr [Str ''has'', Str ''Z''])\<rparr>
   \<and> applySeaLevelFilter oneLayerMap [''lidar-points'', ''lidar-gone''] 1.5 ''lidar-points''
       = Some \<lparr>paint = Map.empty,
               layerFilter = Some (Arr [Str ''>='', Arr [Str ''get'', Str ''Z''], Num 1.5])\<rparr>"
  using applySeaLevelFilter_replaces_filter
    [of "''lidar-points''" "[''lidar-points'', ''lidar-gone'']" oneLayerMap
        "\<lparr>paint = Map.empty, layerFilter = Some (Arr [Str ''has'', Str ''Z''])\<rparr>" "1.5"]
  by simp

text \<open>
  C6. For every id of the current layer ids whose layer is present in the map, the
  elevation scheme sets the point colour to exactly the linear interpolation over Z with
  the stops 0, 1, 2.5, 3.5, 5 and their colours, and the classification scheme sets it to
  exactly the match on Classification with 2, 7, 9, 10 and the default. Both expressions
  are constants: they depend on the scheme alone. The match yields green for 2, blue for
  7, amber for 9, red for 10 and gray for any other value.
\<close>

theorem applyColorScheme_expressions:
  "(layerId \<in> set layerIds \<and> mapInst layerId = Some l \<longrightarrow>
      applyColorScheme mapInst layerIds ''elevation'' layerId
        = Some (l\<lparr>paint := (paint l)(''point-color'' \<mapsto>
            Arr [Str ''interpolate'', Arr [Str ''linear''], Arr [Str ''get'', Str ''Z''],
                 Num 0, Str ''#0d47a1'', Num 1, Str ''#1976d2'', Num 2.5, Str ''#26c6da'',
                 Num 3.5, Str ''#fdd835'', Num 5, Str ''#ef5350''])\<rparr>)
      \<and> applyColorScheme mapInst layerIds ''classification'' layerId
        = Some (l\<lparr>paint := (paint l)(''point-color'' \<mapsto>
            Arr [Str ''match'', Arr [Str ''get'', Str ''Classification''],
                 Num 2, Str ''#4caf50'', Num 7, Str ''#1976d2'', Num 9, Str ''#ffb300'',
                 Num 10, Str ''#ef5350'', Str ''#9e9e9e''])\<rparr>))
   \<and> (evalMatch (Arr [Str ''match'', Arr [Str ''get'', Str ''Classification''],
                       Num 2, Str ''#4caf50'', Num 7, Str ''#1976d2'', Num 9, Str ''#ffb300'',
                       Num 10, Str ''#ef5350'', Str ''#9e9e9e'']) [''Classification'' \<mapsto> v]
        = Some (Str (if v = 2 then ''#4caf50'' else if v = 7 then ''#1976d2''
                     else if v = 9 then ''#ffb300'' else if v = 10 then ''#ef5350''
                     else ''#9e9e9e'')))"
  by (simp add: applyColorScheme_elevation applyColorScheme_classification evalMatch_def)

text \<open>
  Witness for C6: the one-layer map, painted by elevation and by classification.
\<close>

theorem applyColorScheme_expressions_witness:
  "''lidar-points'' \<in> set [''lidar-points'', ''lidar-gone'']
   \<and> oneLayerMap ''lidar-points''
       = Some \<lparr>paint = Map.empty, layerFilter = Some (Arr [Str ''has'', Str ''Z''])\<rparr>
   \<and> applyColorScheme oneLayerMap [''lidar-points'', ''lidar-gone''] ''elevation'' ''lidar-points''
       = Some \<lparr>paint = [''point-color'' \<mapsto>
                   Arr [Str ''interpolate'', Arr [Str ''linear''], Arr [Str ''get'', Str ''Z''],
                        Num 0, Str ''#0d47a1'', Num 1, Str ''#1976d2'', Num 2.5, Str ''#26c6da'',
                        Num 3.5, Str ''#fdd835'', Num 5, Str ''#ef5350'']],
               layerFilter = Some (Arr [Str ''has'', Str ''Z''])\<rparr>
   \<and> applyColorScheme oneLayerMap [''lidar-points'', ''lidar-gone''] ''classification'' ''lidar-points''
       = Some \<lparr>paint = [''point-color'' \<mapsto>
                   Arr [Str ''match'', Arr [Str ''get'', Str ''Classification''],
                        Num 2, Str ''#4caf50'', Num 7, Str ''#1976d2'', Num 9, Str ''#ffb300'',
                        Num 10, Str ''#ef5350'', Str ''#9e9e9e'']],
               layerFilter = Some (Arr [Str ''has'', Str ''Z''])\<rparr>
   \<and> evalMatch (Arr [Str ''match'', Arr [Str ''get'', Str ''Classification''],
                       Num 2, Str ''#4caf50'', Num 7, Str ''#1976d2'', Num 9, Str ''#ffb300'',
                       Num 10, Str ''#ef5350'', Str ''#9e9e9e'']) [''Classification'' \<mapsto> 6]
       = Some (Str ''#9e9e9e'')"
  using applyColorScheme_expressions
    [of "''lidar-points''" "[''lidar-points'', ''lidar-gone'']" oneLayerMap
        "\<lparr>paint = Map.empty, layerFilter = Some (Arr [Str ''has'', Str ''Z''])\<rparr>" 6]
  by simp

text \<open>
  C8. For every scheme string outside elevation, intensity, classification, rgb and every
  layer set, \<^verbatim>\<open>applyColorScheme\<close> returns the map as it was: no paint property of any
  layer is set. The walk has no raising step, so the call is a no-op.
\<close>

theorem applyColorScheme_unknown_scheme:
  "scheme \<notin> recognizedSchemes \<longrightarrow> applyColorScheme mapInst layerIds scheme = mapInst"
  by (simp add: applyColorScheme_unrecognized)

text \<open>Witness for C8: the scheme \<open>slope\<close> on the one-layer map.\<close>

theorem applyColorScheme_unknown_scheme_witness:
  "''slope'' \<notin> recognizedSchemes
   \<and> applyColorScheme oneLayerMap [''lidar-points'', ''lidar-gone''] ''slope'' = oneLayerMap"
proof -
  have "''slope'' \<notin> recognizedSchemes"
    by (simp add: recognizedSchemes_def)
  with applyColorScheme_unknown_scheme [of "''slope''" oneLayerMap "[''lidar-points'', ''lidar-gone'']"]
  show ?thesis by simp
qed

text \<open>
  C9. For every layer set and every recognized scheme B, applying a scheme A and then B
  leaves the map as applying B alone does, whatever A was; applying the same scheme
  twice, or the same threshold twice, leaves the map as applying it once does.
\<close>

theorem applyColorScheme_last_applied_wins:
  "(B \<in> recognizedSchemes \<longrightarrow>
      applyColorScheme (applyColorScheme mapInst layerIds A) layerIds B
        = applyColorScheme mapInst layerIds B)
   \<and> applyColorScheme (applyColorScheme mapInst layerIds scheme) layerIds scheme
        = applyColorScheme mapInst layerIds scheme
   \<and> applySeaLevelFilter (applySeaLevelFilter mapInst layerIds threshold) layerIds threshold
        = applySeaLevelFilter mapInst layerIds threshold"
  by (simp add: applyColorScheme_last_wins applyColorScheme_idem applySeaLevelFilter_last_wins)

text \<open>
  Witness for C9: classification and then elevation on the one-layer map is elevation alone.
\<close>

theorem applyColorScheme_last_applied_wins_witness:
  "''elevation'' \<in> recognizedSchemes \<and> ''classification'' \<in> recognizedSchemes
   \<and> applyColorScheme
        (applyColorScheme oneLayerMap [''lidar-points'', ''lidar-gone''] ''classification'')
        [''lidar-points'', ''lidar-gone''] ''elevation''
       = applyColorScheme oneLayerMap [''lidar-points'', ''lidar-gone''] ''elevation''
   \<and> applyColorScheme oneLayerMap [''lidar-points'', ''lidar-gone''] ''elevation'' ''lidar-points''
       \<noteq> applyColorScheme oneLayerMap [''lidar-points'', ''lidar-gone''] ''classification'' ''lidar-points''"
proof -
  have r: "''elevation'' \<in> recognizedSchemes" "''classification'' \<in> recognizedSchemes"
    by (simp_all add: recognizedSchemes_def)
  have d: "applyColorScheme oneLayerMap [''lidar-points'', ''lidar-gone''] ''elevation'' ''lidar-points''
       \<noteq> applyColorScheme oneLayerMap [''lidar-points'', ''lidar-gone''] ''classification'' ''lidar-points''"
    by (simp add: applyColorScheme_elevation applyColorScheme_classification fun_eq_iff)
  from r applyColorScheme_last_applied_wins
    [of "''elevation''" oneLayerMap "[''lidar-points'', ''lidar-gone'']" "''classification''"]
  have "applyColorScheme
        (applyColorScheme oneLayerMap [''lidar-points'', ''lidar-gone''] ''classification'')
        [''lidar-points'', ''lidar-gone''] ''elevation''
       = applyColorScheme oneLayerMap [''lidar-points'', ''lidar-gone''] ''elevation''"
    by simp
  with r d show ?thesis by simp
qed

section \<open>Claim about the Florida feature filter\<close>

text \<open>
  C7. For every collection of features, the filter retains a feature if and only if its
  state property (or, that being absent or empty, its STATE property) exists and contains
  FL once upper-cased; the retained features keep their order. Of the features with the
  state values FL, fl, GA and no state, exactly the first two are retained.
\<close>

theorem floridaFeatures_keeps_FL:
  "floridaFeatures (Some fs) = Some (filter specKeeps fs)
   \<and> sourceFeatures (Some fs) = filter specKeeps fs
   \<and> floridaFeatures None = None
   \<and> keepFeature f = specKeeps f
   \<and> floridaFeatures
        (Some [stateFeature ''FL'', stateFeature ''fl'', stateFeature ''GA'',
               \<lparr>properties = Some Map.empty\<rparr>])
      = Some [stateFeature ''FL'', stateFeature ''fl'']"
proof -
  have k: "keepFeature = (specKeeps :: 'a feature_scheme \<Rightarrow> bool)"
    by (rule ext) (rule keepFeature_iff)
  have "floridaFeatures
        (Some [stateFeature ''FL'', stateFeature ''fl'', stateFeature ''GA'',
               \<lparr>properties = Some Map.empty\<rparr>])
      = Some [stateFeature ''FL'', stateFeature ''fl'']"
    by (simp add: floridaFeatures_def keepFeature_def getProp_def js_or_def toUpperCase_def
        upperChar_def)
  then show ?thesis
    by (simp add: floridaFeatures_def sourceFeatures_def k keepFeature_iff)
qed


end
